theory Spec2Isabelle
  imports Complex_Main "HOL-Library.Word" "HOL-Library.AList"
begin

section \<open>JavaScript values as the server sees them\<close>

text \<open>
  A JavaScript string is a sequence of UTF-16 code units; \<open>length\<close>, \<open>slice\<close> and
  \<open>trim\<close> of the source all count code units. Server-side literals are ASCII and are
  written through \<open>utf16\<close>.
\<close>

type_synonym jsstring = "16 word list"

definition utf16 :: "string \<Rightarrow> jsstring" where
  "utf16 s = map (\<lambda>c. of_nat (of_char c)) s"

text \<open>
  A JavaScript number is a finite value, one of the two infinities, or NaN. The sign of zero
  is not part of this model. \<open>JSON.parse\<close> yields \<open>PInf\<close> for a literal such as \<open>1e999\<close>.
\<close>

datatype jsnum = Fin rat | PInf | NInf | NaN

text \<open>
  A request body as \<open>JSON.parse\<close> leaves it. An object is the list of its own keys, one
  entry per key.
\<close>

datatype jsval =
    JUndefined
  | JNull
  | JBool bool
  | JNum jsnum
  | JStr jsstring
  | JArr "jsval list"
  | JObj "(jsstring \<times> jsval) list"

text \<open>
  What the language and the storage binding do and the server does not program are
  parameters of the model: the conversions between strings and numbers, the Unicode
  lower-casing, the rounding of an exact sum or product to a double (an infinity on
  overflow), and the text that comes back from the store for a string bound to a \<open>TEXT\<close>
  parameter (a string is stored as UTF-8, so an unpaired surrogate does not come back).
\<close>

record builtins =
  numberToString :: "jsnum \<Rightarrow> jsstring"
  stringToNumber :: "jsstring \<Rightarrow> jsnum"
  toLowerCase :: "jsstring \<Rightarrow> jsstring"
  toDouble :: "rat \<Rightarrow> jsnum"
  toStoredText :: "jsstring \<Rightarrow> jsstring"

text \<open>
  \<open>String(v)\<close> and \<open>Number(v)\<close> throw a \<open>TypeError\<close> when they meet an object that
  cannot be converted to a primitive. For a parsed body that is an object with an own key
  \<open>toString\<close>: the value under it is not callable, and the inherited \<open>valueOf\<close> returns
  the object itself.
\<close>

datatype type_error = TypeError

text \<open>Evaluation in sequence: the first throw ends it.\<close>

definition and_then :: "type_error + 'a \<Rightarrow> ('a \<Rightarrow> type_error + 'b) \<Rightarrow> type_error + 'b" where
  "and_then r f = (case r of Inl e \<Rightarrow> Inl e | Inr a \<Rightarrow> f a)"

definition num_truthy :: "jsnum \<Rightarrow> bool" where
  "num_truthy n = (n \<noteq> Fin 0 \<and> n \<noteq> NaN)"

fun truthy :: "jsval \<Rightarrow> bool" where
  "truthy JUndefined = False"
| "truthy JNull = False"
| "truthy (JBool b) = b"
| "truthy (JNum n) = num_truthy n"
| "truthy (JStr s) = (s \<noteq> [])"
| "truthy (JArr xs) = True"
| "truthy (JObj kvs) = True"

text \<open>\<open>v.k\<close> on a value that came out of \<open>JSON.parse\<close>, for the keys the server reads.\<close>

definition member :: "jsval \<Rightarrow> string \<Rightarrow> jsval" where
  "member v k =
     (case v of
        JObj kvs \<Rightarrow> (case map_of kvs (utf16 k) of Some x \<Rightarrow> x | None \<Rightarrow> JUndefined)
      | _ \<Rightarrow> JUndefined)"

text \<open>The guarded access \<open>v && v.k\<close> that every read of the request body uses.\<close>

definition guarded :: "jsval \<Rightarrow> string \<Rightarrow> jsval" where
  "guarded v k = (if truthy v then member v k else v)"

definition join_comma :: "jsstring list \<Rightarrow> jsstring" where
  "join_comma xs = (case xs of [] \<Rightarrow> [] | y # ys \<Rightarrow> y @ concat (map (\<lambda>z. 0x2C # z) ys))"

fun ToString :: "builtins \<Rightarrow> jsval \<Rightarrow> type_error + jsstring" where
  "ToString B JUndefined = Inr (utf16 ''undefined'')"
| "ToString B JNull = Inr (utf16 ''null'')"
| "ToString B (JBool b) = Inr (if b then utf16 ''true'' else utf16 ''false'')"
| "ToString B (JNum n) = Inr (numberToString B n)"
| "ToString B (JStr s) = Inr s"
| "ToString B (JArr xs) =
     (let parts = map (\<lambda>x. if x = JUndefined \<or> x = JNull then Inr [] else ToString B x) xs
      in if list_ex isl parts then Inl TypeError else Inr (join_comma (map projr parts)))"
| "ToString B (JObj kvs) =
     (if utf16 ''toString'' \<in> set (map fst kvs) then Inl TypeError
      else Inr (utf16 ''[object Object]''))"

fun ToNumber :: "builtins \<Rightarrow> jsval \<Rightarrow> type_error + jsnum" where
  "ToNumber B JUndefined = Inr NaN"
| "ToNumber B JNull = Inr (Fin 0)"
| "ToNumber B (JBool b) = Inr (if b then Fin 1 else Fin 0)"
| "ToNumber B (JNum n) = Inr n"
| "ToNumber B (JStr s) = Inr (stringToNumber B s)"
| "ToNumber B (JArr xs) = and_then (ToString B (JArr xs)) (\<lambda>s. Inr (stringToNumber B s))"
| "ToNumber B (JObj kvs) =
     (if utf16 ''toString'' \<in> set (map fst kvs) then Inl TypeError else Inr NaN)"

definition num_or :: "jsnum \<Rightarrow> jsnum \<Rightarrow> jsnum" where
  "num_or a b = (if num_truthy a then a else b)"

fun Math_round :: "jsnum \<Rightarrow> jsnum" where
  "Math_round (Fin q) = Fin (of_int \<lfloor>q + 1 / 2\<rfloor>)"
| "Math_round n = n"

fun Math_max :: "jsnum \<Rightarrow> jsnum \<Rightarrow> jsnum" where
  "Math_max NaN b = NaN"
| "Math_max a NaN = NaN"
| "Math_max PInf b = PInf"
| "Math_max a PInf = PInf"
| "Math_max NInf b = b"
| "Math_max a NInf = a"
| "Math_max (Fin a) (Fin b) = Fin (max a b)"

fun Math_min :: "jsnum \<Rightarrow> jsnum \<Rightarrow> jsnum" where
  "Math_min NaN b = NaN"
| "Math_min a NaN = NaN"
| "Math_min NInf b = NInf"
| "Math_min a NInf = NInf"
| "Math_min PInf b = b"
| "Math_min a PInf = a"
| "Math_min (Fin a) (Fin b) = Fin (min a b)"

text \<open>\<open>a * b\<close> and \<open>a + b\<close> on doubles: the exact result of two finite operands is rounded.\<close>

fun num_mul :: "builtins \<Rightarrow> jsnum \<Rightarrow> jsnum \<Rightarrow> jsnum" where
  "num_mul B NaN b = NaN"
| "num_mul B a NaN = NaN"
| "num_mul B (Fin a) (Fin b) = toDouble B (a * b)"
| "num_mul B (Fin a) PInf = (if a = 0 then NaN else if 0 < a then PInf else NInf)"
| "num_mul B (Fin a) NInf = (if a = 0 then NaN else if 0 < a then NInf else PInf)"
| "num_mul B PInf (Fin b) = (if b = 0 then NaN else if 0 < b then PInf else NInf)"
| "num_mul B NInf (Fin b) = (if b = 0 then NaN else if 0 < b then NInf else PInf)"
| "num_mul B PInf PInf = PInf"
| "num_mul B PInf NInf = NInf"
| "num_mul B NInf PInf = NInf"
| "num_mul B NInf NInf = PInf"

fun num_add :: "builtins \<Rightarrow> jsnum \<Rightarrow> jsnum \<Rightarrow> jsnum" where
  "num_add B NaN b = NaN"
| "num_add B a NaN = NaN"
| "num_add B (Fin a) (Fin b) = toDouble B (a + b)"
| "num_add B PInf NInf = NaN"
| "num_add B NInf PInf = NaN"
| "num_add B PInf b = PInf"
| "num_add B a PInf = PInf"
| "num_add B NInf b = NInf"
| "num_add B a NInf = NInf"

section \<open>Text and item normalization\<close>

text \<open>The code units that \<open>String.prototype.trim\<close> removes (white space and line terminators).\<close>

definition is_space :: "16 word \<Rightarrow> bool" where
  "is_space c =
     (c \<in> set [0x0009, 0x000A, 0x000B, 0x000C, 0x000D, 0x0020, 0x00A0, 0x1680,
               0x2000, 0x2001, 0x2002, 0x2003, 0x2004, 0x2005, 0x2006, 0x2007,
               0x2008, 0x2009, 0x200A, 0x2028, 0x2029, 0x202F, 0x205F, 0x3000, 0xFEFF])"

definition trim :: "jsstring \<Rightarrow> jsstring" where
  "trim s = rev (dropWhile is_space (rev (dropWhile is_space s)))"

definition sanitizeText :: "builtins \<Rightarrow> jsval \<Rightarrow> nat \<Rightarrow> type_error + jsstring" where
  "sanitizeText B v maxLen =
     and_then (ToString B (if truthy v then v else JStr [])) (\<lambda>str.
       let clean = trim str
       in Inr (if maxLen = 0 then clean else take maxLen clean))"

record item =
  name :: jsstring
  price :: jsnum
  qty :: jsnum
  image_url :: jsstring

text \<open>The callback of \<open>items.map\<close>: its four statements in order.\<close>

definition normalize_item :: "builtins \<Rightarrow> jsval \<Rightarrow> type_error + item" where
  "normalize_item B it =
     and_then (sanitizeText B (guarded it ''name'') 120) (\<lambda>nm.
     and_then (ToNumber B (guarded it ''price'')) (\<lambda>p.
     and_then (ToNumber B (guarded it ''qty'')) (\<lambda>q.
     and_then (sanitizeText B (guarded it ''image'') 2048) (\<lambda>img.
       Inr \<lparr> name = nm,
             price = Math_max (Fin 0) (Math_round (num_or p (Fin 0))),
             qty = Math_max (Fin 1) (Math_min (Fin 99) (Math_round (num_or q (Fin 1)))),
             image_url = img \<rparr>))))"

fun isArray :: "jsval \<Rightarrow> bool" where
  "isArray (JArr xs) = True"
| "isArray v = False"

fun elements :: "jsval \<Rightarrow> jsval list" where
  "elements (JArr xs) = xs"
| "elements v = []"

text \<open>\<open>items.map\<close> calls the callback on the elements from left to right.\<close>

fun map_items :: "builtins \<Rightarrow> jsval list \<Rightarrow> type_error + item list" where
  "map_items B [] = Inr []"
| "map_items B (x # xs) =
     and_then (normalize_item B x) (\<lambda>it.
     and_then (map_items B xs) (\<lambda>its. Inr (it # its)))"

definition normalizeItems :: "builtins \<Rightarrow> jsval \<Rightarrow> type_error + item list" where
  "normalizeItems B items =
     (if \<not> isArray items then Inr []
      else and_then (map_items B (elements items)) (\<lambda>its. Inr (filter (\<lambda>it. name it \<noteq> []) its)))"

text \<open>\<open>items.reduce((sum, item) => sum + item.price * item.qty, 0)\<close>\<close>

definition order_total :: "builtins \<Rightarrow> item list \<Rightarrow> jsnum" where
  "order_total B items =
     foldl (\<lambda>sum it. num_add B sum (num_mul B (price it) (qty it))) (Fin 0) items"

section \<open>The session store\<close>

text \<open>
  \<open>sessions\<close> is a JavaScript \<open>Map\<close>: insertion-ordered, one entry per key. Times are
  the integer milliseconds of \<open>Date.now()\<close>; every function that reads the clock takes the
  reading as an argument.
\<close>

type_synonym token = jsstring

record session =
  adminId :: nat
  username :: jsstring
  expiresAt :: int

type_synonym session_map = "(token \<times> session) list"

definition SESSION_TTL_MS :: int where
  "SESSION_TTL_MS = 12 * 60 * 60 * 1000"

text \<open>The token is 32 random bytes in hexadecimal; the random draw is an argument.\<close>

definition createSession :: "token \<Rightarrow> nat \<Rightarrow> jsstring \<Rightarrow> int \<Rightarrow> session_map \<Rightarrow> token \<times> session_map" where
  "createSession tok admin_id admin_name now sessions =
     (tok, AList.update tok
             \<lparr> adminId = admin_id, username = admin_name, expiresAt = now + SESSION_TTL_MS \<rparr>
             sessions)"

definition getSession :: "token \<Rightarrow> int \<Rightarrow> session_map \<Rightarrow> session option \<times> session_map" where
  "getSession tok now sessions =
     (case map_of sessions tok of
        None \<Rightarrow> (None, sessions)
      | Some s \<Rightarrow>
          if expiresAt s < now then (None, AList.delete tok sessions)
          else (Some s, sessions))"

text \<open>
  The first half of the interval callback: \<open>sessions.forEach\<close> visits every entry of the map
  and deletes the visited key when its entry is stale.
\<close>

definition sweep :: "int \<Rightarrow> session_map \<Rightarrow> session_map" where
  "sweep now sessions =
     fold (\<lambda>(key, val) m. if expiresAt val < now then AList.delete key m else m) sessions sessions"

section \<open>The order store\<close>

text \<open>
  The three relations of \<open>initDatabase\<close> that the order paths touch. The \<open>name\<close>,
  \<open>price\<close>, \<open>qty\<close> and \<open>image\<close> columns of an item row are kept together as one
  item. A \<open>TEXT\<close> column holds the text as a read returns it: the binding encodes a
  JavaScript string as UTF-8, and this conversion (\<open>toStoredText\<close>) is written out where a
  handler binds a string to a parameter. \<open>AUTOINCREMENT\<close> keeps the largest row id ever
  handed out in \<open>seq_orders\<close> and \<open>seq_items\<close>. Timestamps are the store's clock reading.
\<close>

record order_row =
  o_id :: nat
  customer_name :: jsstring
  table_no :: jsstring
  order_note :: jsstring
  status :: jsstring
  total :: jsnum
  created_at :: int
  updated_at :: int

record item_row =
  i_id :: nat
  order_id :: nat
  cols :: item

record tables =
  orders :: "order_row list"
  order_items :: "item_row list"
  seq_orders :: nat
  seq_items :: nat

text \<open>
  The server talks to the store over one connection. \<open>cur\<close> is what a read on that
  connection sees; \<open>saved\<close> is the state to return to on \<open>ROLLBACK\<close>, present exactly
  while a transaction is open.
\<close>

record database =
  cur :: tables
  saved :: "tables option"

datatype sql_error = IoFault | NestedTransaction | NoTransaction | ForeignKeyViolation

datatype statement =
    Begin
  | Commit
  | Rollback
  | InsertOrder jsstring jsstring jsstring jsnum int
  | InsertItem nat item
  | UpdateStatus jsstring int nat

record run_result =
  lastID :: nat
  changes :: nat

fun exec :: "statement \<Rightarrow> database \<Rightarrow> sql_error + (run_result \<times> database)" where
  "exec Begin d =
     (if saved d \<noteq> None then Inl NestedTransaction
      else Inr (\<lparr> lastID = 0, changes = 0 \<rparr>, d\<lparr> saved := Some (cur d) \<rparr>))"
| "exec Commit d =
     (if saved d = None then Inl NoTransaction
      else Inr (\<lparr> lastID = 0, changes = 0 \<rparr>, d\<lparr> saved := None \<rparr>))"
| "exec Rollback d =
     (case saved d of
        None \<Rightarrow> Inl NoTransaction
      | Some t \<Rightarrow> Inr (\<lparr> lastID = 0, changes = 0 \<rparr>, \<lparr> cur = t, saved = None \<rparr>))"
| "exec (InsertOrder customerName tableNo nt tot now) d =
     (let t = cur d; oid = Suc (seq_orders t);
          row = \<lparr> o_id = oid, customer_name = customerName, table_no = tableNo, order_note = nt,
                  status = utf16 ''pending'', total = tot, created_at = now, updated_at = now \<rparr>
      in Inr (\<lparr> lastID = oid, changes = 1 \<rparr>,
              d\<lparr> cur := t\<lparr> orders := orders t @ [row], seq_orders := oid \<rparr> \<rparr>))"
| "exec (InsertItem oid it) d =
     (let t = cur d; iid = Suc (seq_items t)
      in if oid \<notin> set (map o_id (orders t)) then Inl ForeignKeyViolation
         else Inr (\<lparr> lastID = iid, changes = 1 \<rparr>,
                   d\<lparr> cur := t\<lparr> order_items := order_items t @ [\<lparr> i_id = iid, order_id = oid, cols = it \<rparr>],
                                seq_items := iid \<rparr> \<rparr>))"
| "exec (UpdateStatus st now oid) d =
     (let t = cur d
      in Inr (\<lparr> lastID = 0, changes = length (filter (\<lambda>r. o_id r = oid) (orders t)) \<rparr>,
              d\<lparr> cur := t\<lparr> orders := map (\<lambda>r. if o_id r = oid then r\<lparr> status := st, updated_at := now \<rparr> else r)
                                           (orders t) \<rparr> \<rparr>))"

text \<open>
  The two queries of \<open>getOrderById\<close>: the order row, and its items \<open>ORDER BY id ASC\<close>.
  They return what the columns hold.
\<close>

type_synonym item_view = "nat \<times> item"
type_synonym order_view = "order_row \<times> item_view list"

definition select_order :: "nat \<Rightarrow> tables \<Rightarrow> order_row option" where
  "select_order oid t = find (\<lambda>r. o_id r = oid) (orders t)"

definition select_items :: "nat \<Rightarrow> tables \<Rightarrow> item_view list" where
  "select_items oid t =
     map (\<lambda>r. (i_id r, cols r)) (sort_key i_id (filter (\<lambda>r. order_id r = oid) (order_items t)))"

definition read_order :: "nat \<Rightarrow> tables \<Rightarrow> order_view option" where
  "read_order oid t = map_option (\<lambda>r. (r, select_items oid t)) (select_order oid t)"

section \<open>The process state\<close>

datatype payload =
    Ready int
  | Ping int
  | OrderCreated "order_view option"
  | OrderUpdated "order_view option"

datatype chunk = EventLine string | DataLine payload

datatype effect = Subscribe nat | Write nat chunk | End nat

record client =
  res :: nat
  c_token :: token

text \<open>
  \<open>faults\<close> scripts the storage engine: each storage call consumes one entry, and
  \<open>True\<close> makes that call reject without touching the store; an exhausted script injects
  nothing. \<open>broken\<close> lists the connections whose \<open>write\<close> throws. \<open>wire\<close> records, in
  program order, what the hub did with connections: which were added to the live set, what
  was written to them and which were ended. \<open>published\<close> is the history of
  \<open>broadcast\<close> invocations.
\<close>

record world =
  db :: database
  faults :: "bool list"
  sessions :: session_map
  sseClients :: "client list"
  broken :: "nat list"
  wire :: "effect list"
  published :: "(string \<times> payload) list"

section \<open>Storage calls\<close>

text \<open>
  \<open>run\<close>, \<open>get\<close> and \<open>all\<close> wrap one call to the store in a promise that rejects on
  error. \<open>await\<close> sequences two of them inside a \<open>try\<close> block: a rejection skips the rest.
\<close>

definition storage_call :: "(database \<Rightarrow> sql_error + ('a \<times> database)) \<Rightarrow> world \<Rightarrow> (sql_error + 'a) \<times> world" where
  "storage_call f w =
     (case faults w of
        True # fs \<Rightarrow> (Inl IoFault, w\<lparr> faults := fs \<rparr>)
      | _ \<Rightarrow>
          (case f (db w) of
             Inl e \<Rightarrow> (Inl e, w\<lparr> faults := tl (faults w) \<rparr>)
           | Inr (r, d) \<Rightarrow> (Inr r, w\<lparr> faults := tl (faults w), db := d \<rparr>)))"

definition run :: "statement \<Rightarrow> world \<Rightarrow> (sql_error + run_result) \<times> world" where
  "run st = storage_call (exec st)"

definition get_order :: "nat \<Rightarrow> world \<Rightarrow> (sql_error + order_row option) \<times> world" where
  "get_order oid = storage_call (\<lambda>d. Inr (select_order oid (cur d), d))"

definition all_items :: "nat \<Rightarrow> world \<Rightarrow> (sql_error + item_view list) \<times> world" where
  "all_items oid = storage_call (\<lambda>d. Inr (select_items oid (cur d), d))"

definition await :: "(world \<Rightarrow> (sql_error + 'a) \<times> world) \<Rightarrow> ('a \<Rightarrow> world \<Rightarrow> (sql_error + 'b) \<times> world)
    \<Rightarrow> world \<Rightarrow> (sql_error + 'b) \<times> world" where
  "await m f w = (case m w of (Inl e, w1) \<Rightarrow> (Inl e, w1) | (Inr a, w1) \<Rightarrow> f a w1)"

definition getOrderById :: "nat \<Rightarrow> world \<Rightarrow> (sql_error + order_view option) \<times> world" where
  "getOrderById orderId =
     await (get_order orderId) (\<lambda>order.
       case order of
         None \<Rightarrow> (\<lambda>w. (Inr None, w))
       | Some row \<Rightarrow> await (all_items orderId) (\<lambda>its w. (Inr (Some (row, its)), w)))"

section \<open>The event hub\<close>

datatype write_error = WriteThrew

definition sendSse :: "nat \<Rightarrow> string \<Rightarrow> payload \<Rightarrow> world \<Rightarrow> write_error + world" where
  "sendSse r event pl w =
     (if r \<in> set (broken w) then Inl WriteThrew
      else Inr (w\<lparr> wire := wire w @ (if event \<noteq> [] then [Write r (EventLine event)] else [])
                                   @ [Write r (DataLine pl)] \<rparr>))"

text \<open>\<open>sseClients.delete(client); try { client.res.end() } catch { }\<close>\<close>

definition drop_client :: "client \<Rightarrow> world \<Rightarrow> world" where
  "drop_client c w = w\<lparr> sseClients := removeAll c (sseClients w), wire := wire w @ [End (res c)] \<rparr>"

text \<open>The body of the \<open>forEach\<close> callback of \<open>broadcast\<close>, for one client.\<close>

definition visit :: "string \<Rightarrow> payload \<Rightarrow> int \<Rightarrow> client \<Rightarrow> world \<Rightarrow> world" where
  "visit event pl now c w =
     (case getSession (c_token c) now (sessions w) of
        (None, ss) \<Rightarrow> drop_client c (w\<lparr> sessions := ss \<rparr>)
      | (Some s, ss) \<Rightarrow>
          (case sendSse (res c) event pl (w\<lparr> sessions := ss \<rparr>) of
             Inr w1 \<Rightarrow> w1
           | Inl err \<Rightarrow> drop_client c (w\<lparr> sessions := ss \<rparr>)))"

definition broadcast :: "string \<Rightarrow> payload \<Rightarrow> int \<Rightarrow> world \<Rightarrow> world" where
  "broadcast event pl now w =
     fold (visit event pl now) (sseClients w) (w\<lparr> published := published w @ [(event, pl)] \<rparr>)"

text \<open>
  The interval callback: the sweep, then the ping. \<open>now\<close> is the callback's own clock
  reading, which the sweep compares with and the ping carries; \<open>now'\<close> is what
  \<open>getSession\<close> reads when the ping visits the subscribers afterwards.
\<close>

definition heartbeat :: "int \<Rightarrow> int \<Rightarrow> world \<Rightarrow> world" where
  "heartbeat now now' w =
     broadcast ''ping'' (Ping now) now' (w\<lparr> sessions := sweep now (sessions w) \<rparr>)"

section \<open>Request handlers\<close>

datatype message =
    NoItems | OrderSaved | SaveFailed | Unauthorized | BadOrderId | BadStatus
  | OrderNotFound | StatusUpdated | UpdateFailed

datatype response =
    Reply nat message
  | ReplyCreated nat message nat jsnum
  | ReplyOrder nat message "order_view option"
  | EndText nat
  | EventStream
  | Threw

fun status_code :: "response \<Rightarrow> nat option" where
  "status_code (Reply c m) = Some c"
| "status_code (ReplyCreated c m oid tot) = Some c"
| "status_code (ReplyOrder c m ord) = Some c"
| "status_code (EndText c) = Some c"
| "status_code EventStream = Some 200"
| "status_code Threw = None"

definition default_customer :: jsstring where
  "default_customer = [0x0E25, 0x0E39, 0x0E01, 0x0E04, 0x0E49, 0x0E32]"

fun insert_items :: "nat \<Rightarrow> item list \<Rightarrow> world \<Rightarrow> (sql_error + unit) \<times> world" where
  "insert_items orderId [] w = (Inr (), w)"
| "insert_items orderId (it # its) w =
     await (run (InsertItem orderId it)) (\<lambda>_. insert_items orderId its) w"

text \<open>The \<open>try\<close> block of \<open>POST /api/orders\<close>, up to the response.\<close>

definition create_try :: "int \<Rightarrow> jsstring \<Rightarrow> jsstring \<Rightarrow> jsstring \<Rightarrow> jsnum \<Rightarrow> item list \<Rightarrow> world
    \<Rightarrow> (sql_error + nat) \<times> world" where
  "create_try now customerName tableNo nt tot items =
     await (run Begin) (\<lambda>_.
     await (run (InsertOrder customerName tableNo nt tot now)) (\<lambda>result.
     await (insert_items (lastID result) items) (\<lambda>_.
     await (run Commit) (\<lambda>_.
     await (getOrderById (lastID result)) (\<lambda>order w.
       (Inr (lastID result), broadcast ''order'' (OrderCreated order) now w))))))"

text \<open>
  The first four statements of \<open>POST /api/orders\<close>, which stand before the \<open>try\<close>: a
  throw in one of them leaves the handler at once.
\<close>

definition read_body :: "builtins \<Rightarrow> jsval \<Rightarrow> type_error + (jsstring \<times> jsstring \<times> jsstring \<times> item list)" where
  "read_body B body =
     and_then (sanitizeText B (guarded body ''customerName'') 80) (\<lambda>s.
     and_then (sanitizeText B (guarded body ''tableNo'') 60) (\<lambda>tableNo.
     and_then (sanitizeText B (guarded body ''note'') 300) (\<lambda>nt.
     and_then (normalizeItems B (guarded body ''items'')) (\<lambda>items.
       Inr (if s = [] then default_customer else s, tableNo, nt, items)))))"

text \<open>
  An item as its row holds it: the two strings as the store gives them back, the two numbers
  as they are.
\<close>

definition stored :: "builtins \<Rightarrow> item \<Rightarrow> item" where
  "stored B it = it\<lparr> name := toStoredText B (name it), image_url := toStoredText B (image_url it) \<rparr>"

text \<open>
  \<open>Threw\<close> is a handler that was left by an exception before it sent anything (for the
  two asynchronous handlers: their promise rejected).
\<close>

definition createOrder :: "builtins \<Rightarrow> int \<Rightarrow> jsval \<Rightarrow> world \<Rightarrow> response \<times> world" where
  "createOrder B now body w =
     (case read_body B body of
        Inl err \<Rightarrow> (Threw, w)
      | Inr (customerName, tableNo, nt, items) \<Rightarrow>
          if items = [] then (Reply 400 NoItems, w)
          else
            let tot = order_total B items
            in (case create_try now (toStoredText B customerName) (toStoredText B tableNo)
                       (toStoredText B nt) tot (map (stored B) items) w of
                  (Inr orderId, w1) \<Rightarrow> (ReplyCreated 201 OrderSaved orderId tot, w1)
                | (Inl err, w1) \<Rightarrow> (Reply 500 SaveFailed, snd (run Rollback w1))))"

text \<open>\<open>authMiddleware\<close>: the bearer token of the \<open>Authorization\<close> header, checked against the sessions.\<close>

definition bearer_token :: "jsstring option \<Rightarrow> token" where
  "bearer_token authorization =
     (let header = (case authorization of None \<Rightarrow> [] | Some h \<Rightarrow> h)
      in if take 7 header = utf16 ''Bearer '' then trim (drop 7 header) else [])"

definition authMiddleware :: "jsstring option \<Rightarrow> int \<Rightarrow> world \<Rightarrow> session option \<times> world" where
  "authMiddleware authorization now w =
     (case getSession (bearer_token authorization) now (sessions w) of
        (r, ss) \<Rightarrow> (r, w\<lparr> sessions := ss \<rparr>))"

definition ORDER_STATUSES :: "jsstring list" where
  "ORDER_STATUSES = [utf16 ''pending'', utf16 ''preparing'', utf16 ''served'', utf16 ''cancelled'']"

text \<open>\<open>Number.isInteger(orderId) && orderId > 0\<close>\<close>

fun positive_integer :: "jsnum \<Rightarrow> bool" where
  "positive_integer (Fin q) = (of_int \<lfloor>q\<rfloor> = q \<and> 0 < q)"
| "positive_integer n = False"

fun row_id :: "jsnum \<Rightarrow> nat" where
  "row_id (Fin q) = nat \<lfloor>q\<rfloor>"
| "row_id n = 0"

definition update_try :: "int \<Rightarrow> jsstring \<Rightarrow> nat \<Rightarrow> world \<Rightarrow> (sql_error + response) \<times> world" where
  "update_try now nextStatus orderId =
     await (run (UpdateStatus nextStatus now orderId)) (\<lambda>result.
       if changes result = 0 then (\<lambda>w. (Inr (Reply 404 OrderNotFound), w))
       else await (getOrderById orderId) (\<lambda>order w.
              (Inr (ReplyOrder 200 StatusUpdated order),
               broadcast ''order'' (OrderUpdated order) now w)))"

definition updateStatus :: "builtins \<Rightarrow> int \<Rightarrow> jsstring option \<Rightarrow> jsstring \<Rightarrow> jsval \<Rightarrow> world
    \<Rightarrow> response \<times> world" where
  "updateStatus B now authorization id_param body w =
     (case authMiddleware authorization now w of
        (None, w0) \<Rightarrow> (Reply 401 Unauthorized, w0)
      | (Some admin, w0) \<Rightarrow>
          let orderId = stringToNumber B id_param
          in (case sanitizeText B (guarded body ''status'') 40 of
                Inl err \<Rightarrow> (Threw, w0)
              | Inr txt \<Rightarrow>
                  let nextStatus = toLowerCase B txt
                  in if \<not> positive_integer orderId then (Reply 400 BadOrderId, w0)
                     else if nextStatus \<notin> set ORDER_STATUSES then (Reply 400 BadStatus, w0)
                     else (case update_try now (toStoredText B nextStatus) (row_id orderId) w0 of
                             (Inr r, w1) \<Rightarrow> (r, w1)
                           | (Inl err, w1) \<Rightarrow> (Reply 500 UpdateFailed, w1))))"

text \<open>
  \<open>GET /api/admin/orders/stream\<close>. \<open>r\<close> names the response object of this request; the
  \<open>close\<close> listener is registered only when the handler reaches its last statement.
  \<open>now\<close> is the clock reading of \<open>getSession\<close>, \<open>now'\<close> the later one that the
  handshake carries.
\<close>

definition stream :: "builtins \<Rightarrow> int \<Rightarrow> int \<Rightarrow> nat \<Rightarrow> jsval \<Rightarrow> world \<Rightarrow> response \<times> world" where
  "stream B now now' r token_param w =
     (case sanitizeText B token_param 200 of
        Inl err \<Rightarrow> (Threw, w)
      | Inr tok \<Rightarrow>
          (case getSession tok now (sessions w) of
             (None, ss) \<Rightarrow> (EndText 401, w\<lparr> sessions := ss \<rparr>)
           | (Some s, ss) \<Rightarrow>
               let c = \<lparr> res = r, c_token = tok \<rparr>;
                   w1 = w\<lparr> sessions := ss,
                          sseClients := (if c \<in> set (sseClients w) then sseClients w
                                         else sseClients w @ [c]),
                          wire := wire w @ [Subscribe r] \<rparr>
               in (case sendSse r ''ready'' (Ready now') w1 of
                     Inr w2 \<Rightarrow> (EventStream, w2)
                   | Inl err \<Rightarrow> (Threw, w1))))"

text \<open>The \<open>close\<close> listener of a stream request.\<close>

definition on_close :: "client \<Rightarrow> world \<Rightarrow> world" where
  "on_close c w = w\<lparr> sseClients := removeAll c (sseClients w) \<rparr>"

section \<open>Notions used in the statements\<close>

text \<open>The storage call number \<open>i\<close> from now (counting from 0) is scripted to fail.\<close>

definition fault_at :: "bool list \<Rightarrow> nat \<Rightarrow> bool" where
  "fault_at fs i = (i < length fs \<and> fs ! i)"

text \<open>The rows that a run of the item loop appends when the last item id handed out was \<open>base\<close>.\<close>

definition item_rows :: "nat \<Rightarrow> nat \<Rightarrow> item list \<Rightarrow> item_row list" where
  "item_rows oid base items =
     map (\<lambda>(i, it). \<lparr> i_id = i, order_id = oid, cols = it \<rparr>) (enumerate (Suc base) items)"

definition new_order :: "jsstring \<Rightarrow> jsstring \<Rightarrow> jsstring \<Rightarrow> jsnum \<Rightarrow> int \<Rightarrow> tables \<Rightarrow> order_row" where
  "new_order customerName tableNo nt tot now t =
     \<lparr> o_id = Suc (seq_orders t), customer_name = customerName, table_no = tableNo, order_note = nt,
       status = utf16 ''pending'', total = tot, created_at = now, updated_at = now \<rparr>"

text \<open>Two worlds agree on everything but the store and the fault script.\<close>

definition same_hub :: "world \<Rightarrow> world \<Rightarrow> bool" where
  "same_hub w w' \<longleftrightarrow>
     sessions w' = sessions w \<and> sseClients w' = sseClients w \<and> broken w' = broken w \<and>
     wire w' = wire w \<and> published w' = published w"

subsection \<open>The hub over a run of the server\<close>

fun effect_conn :: "effect \<Rightarrow> nat" where
  "effect_conn (Subscribe r) = r"
| "effect_conn (Write r ch) = r"
| "effect_conn (End r) = r"

text \<open>
  From \<open>w\<close> to \<open>w'\<close> no subscriber was added, and whatever was put on the wire went to
  connections that were subscribed in \<open>w\<close>.
\<close>

definition hub_step :: "world \<Rightarrow> world \<Rightarrow> bool" where
  "hub_step w w' \<longleftrightarrow>
     set (sseClients w') \<subseteq> set (sseClients w) \<and>
     (\<exists>more. wire w' = wire w @ more \<and> (\<forall>x\<in>set more. effect_conn x \<in> res ` set (sseClients w)))"

text \<open>From \<open>w\<close> to \<open>w'\<close> nothing was written to connection \<open>r\<close>, and \<open>r\<close> is not subscribed in \<open>w'\<close>.\<close>

definition quiet :: "nat \<Rightarrow> world \<Rightarrow> world \<Rightarrow> bool" where
  "quiet r w w' \<longleftrightarrow>
     r \<notin> res ` set (sseClients w') \<and>
     (\<exists>more. wire w' = wire w @ more \<and> (\<forall>ch. Write r ch \<notin> set more))"

text \<open>
  What can happen to the process: a request to one of the handlers, the close of a stream,
  the interval timer, a session issued by a successful login, and the environment changing
  which storage calls fail and which connections are broken.
\<close>

datatype call =
    PostOrder int jsval
  | PatchStatus int "jsstring option" jsstring jsval
  | OpenStream int int nat jsval
  | CloseStream client
  | Tick int int
  | SessionIssued token nat jsstring int
  | Environment "bool list" "nat list"

fun step :: "builtins \<Rightarrow> call \<Rightarrow> world \<Rightarrow> world" where
  "step B (PostOrder now body) w = snd (createOrder B now body w)"
| "step B (PatchStatus now authorization id_param body) w =
     snd (updateStatus B now authorization id_param body w)"
| "step B (OpenStream now now' r token_param) w = snd (stream B now now' r token_param w)"
| "step B (CloseStream c) w = on_close c w"
| "step B (Tick now now') w = heartbeat now now' w"
| "step B (SessionIssued tok admin_id admin_name now) w =
     w\<lparr> sessions := snd (createSession tok admin_id admin_name now (sessions w)) \<rparr>"
| "step B (Environment fs bs) w = w\<lparr> faults := fs, broken := bs \<rparr>"

fun stream_of :: "call \<Rightarrow> nat option" where
  "stream_of (OpenStream now now' r token_param) = Some r"
| "stream_of c = None"

text \<open>
  What a call that leads from \<open>w\<close> to \<open>w'\<close> has done to subscriber \<open>c\<close> when it pruned
  it: \<open>c\<close> is out of the live set, its connection was ended and not written to, and no
  later run of the server that does not open a stream on that connection again writes to it.
\<close>

definition pruned :: "builtins \<Rightarrow> client \<Rightarrow> world \<Rightarrow> world \<Rightarrow> bool" where
  "pruned B c w w' \<longleftrightarrow>
     c \<notin> set (sseClients w') \<and>
     (\<exists>more. wire w' = wire w @ more \<and> End (res c) \<in> set more \<and>
             (\<forall>ch. Write (res c) ch \<notin> set more)) \<and>
     (\<forall>calls. (\<forall>call\<in>set calls. stream_of call \<noteq> Some (res c)) \<longrightarrow>
        (\<exists>later. wire (fold (step B) calls w') = wire w' @ later \<and>
                 (\<forall>ch. Write (res c) ch \<notin> set later)))"

subsection \<open>The store after a committed order\<close>

definition with_order :: "jsstring \<Rightarrow> jsstring \<Rightarrow> jsstring \<Rightarrow> jsnum \<Rightarrow> int \<Rightarrow> item list \<Rightarrow> tables \<Rightarrow> tables" where
  "with_order cn tn nt tot now items t =
     t\<lparr> orders := orders t @ [new_order cn tn nt tot now t],
        seq_orders := Suc (seq_orders t),
        order_items := order_items t @ item_rows (Suc (seq_orders t)) (seq_items t) items,
        seq_items := seq_items t + length items \<rparr>"

text \<open>No row carries an order id that \<open>AUTOINCREMENT\<close> has not handed out yet.\<close>

definition store_ok :: "tables \<Rightarrow> bool" where
  "store_ok t \<longleftrightarrow>
     (\<forall>r\<in>set (orders t). o_id r \<le> seq_orders t) \<and>
     (\<forall>r\<in>set (order_items t). order_id r \<le> seq_orders t)"

subsection \<open>A concrete scenario\<close>

definition example_builtins :: builtins where
  "example_builtins =
     \<lparr> numberToString = (\<lambda>n. []), stringToNumber = (\<lambda>s. if s = [0x31] then Fin 1 else NaN),
       toLowerCase = (\<lambda>s. s), toDouble = Fin, toStoredText = (\<lambda>s. s) \<rparr>"

definition empty_world :: world where
  "empty_world =
     \<lparr> db = \<lparr> cur = \<lparr> orders = [], order_items = [], seq_orders = 0, seq_items = 0 \<rparr>, saved = None \<rparr>,
       faults = [], sessions = [], sseClients = [], broken = [], wire = [], published = [] \<rparr>"

definition example_body :: jsval where
  "example_body =
     JObj [(utf16 ''customerName'', JStr (utf16 ''Nid'')),
           (utf16 ''tableNo'', JStr (utf16 ''T3'')),
           (utf16 ''note'', JStr (utf16 ''no chili'')),
           (utf16 ''items'',
            JArr [JObj [(utf16 ''name'', JStr (utf16 ''Pad Thai'')),
                        (utf16 ''price'', JNum (Fin 60)), (utf16 ''qty'', JNum (Fin 2))],
                  JObj [(utf16 ''name'', JStr (utf16 ''Tea'')),
                        (utf16 ''price'', JNum (Fin 15)), (utf16 ''qty'', JNum (Fin 1))]])]"

definition admin_session :: "int \<Rightarrow> session" where
  "admin_session t = \<lparr> adminId = 1, username = utf16 ''admin'', expiresAt = t \<rparr>"

definition blank_body :: jsval where
  "blank_body =
     JObj [(utf16 ''items'',
            JArr [JObj [(utf16 ''name'', JStr (utf16 ''  '')), (utf16 ''price'', JNum (Fin 10)),
                        (utf16 ''qty'', JNum (Fin 1))],
                  JObj [(utf16 ''price'', JNum (Fin 10))]])]"

definition stale_client :: client where
  "stale_client = \<lparr> res = 7, c_token = utf16 ''t1'' \<rparr>"

definition live_client :: client where
  "live_client = \<lparr> res = 8, c_token = utf16 ''t2'' \<rparr>"

definition hub_world :: world where
  "hub_world = empty_world\<lparr> sessions := [(utf16 ''t1'', admin_session 99), (utf16 ''t2'', admin_session 500)],
                             sseClients := [stale_client, live_client] \<rparr>"

definition shop_world :: world where
  "shop_world = snd (createOrder example_builtins 100 example_body hub_world)"

definition served_body :: jsval where
  "served_body = JObj [(utf16 ''status'', JStr (utf16 ''served''))]"

definition boundary_world :: world where
  "boundary_world =
     empty_world\<lparr> sessions := [(utf16 ''a'', admin_session 99), (utf16 ''b'', admin_session 100),
                                (utf16 ''c'', admin_session 101)],
                  sseClients := [\<lparr> res = 5, c_token = utf16 ''b'' \<rparr>] \<rparr>"

definition example_items :: "item list" where
  "example_items =
     [\<lparr> name = utf16 ''Pad Thai'', price = Fin 60, qty = Fin 2, image_url = [] \<rparr>,
      \<lparr> name = utf16 ''Tea'', price = Fin 15, qty = Fin 1, image_url = [] \<rparr>]"

text \<open>Two bodies whose \<open>customerName\<close> is an object with an own key \<open>toString\<close>.\<close>

definition hostile_body :: jsval where
  "hostile_body =
     JObj [(utf16 ''customerName'', JObj [(utf16 ''toString'', JNum (Fin 1))]),
           (utf16 ''items'', JArr [])]"

definition hostile_body_no_items :: jsval where
  "hostile_body_no_items =
     JObj [(utf16 ''customerName'', JObj [(utf16 ''toString'', JNum (Fin 1))])]"

section \<open>Sessions: expiry and sweep\<close>

lemma sweep_fold:
  "distinct (map fst xs) \<Longrightarrow> set xs \<subseteq> set m \<Longrightarrow> distinct (map fst m) \<Longrightarrow>
   fold (\<lambda>(key, val) m. if expiresAt val < now then AList.delete key m else m) xs m
   = filter (\<lambda>(k, v). \<not> ((k, v) \<in> set xs \<and> expiresAt v < now)) m"
proof (induction xs arbitrary: m)
  case Nil
  then show ?case by simp
next
  case (Cons x xs)
  obtain k v where x: "x = (k, v)" by (cases x)
  from Cons.prems x have kv: "(k, v) \<in> set m" and knot: "k \<notin> fst ` set xs"
    and dxs: "distinct (map fst xs)" and sub: "set xs \<subseteq> set m" by auto
  have uniq: "\<And>k' v'. (k', v') \<in> set m \<Longrightarrow> k' = k \<Longrightarrow> v' = v"
    using Cons.prems(3) kv by (meson eq_key_imp_eq_value)
  show ?case
  proof (cases "expiresAt v < now")
    case True
    let ?m' = "AList.delete k m"
    have sub': "set xs \<subseteq> set ?m'"
      using sub knot by (force simp: AList.delete_eq)
    have d': "distinct (map fst ?m')"
      using Cons.prems(3) by (simp add: distinct_delete)
    have "fold (\<lambda>(key, val) m. if expiresAt val < now then AList.delete key m else m) (x # xs) m
          = fold (\<lambda>(key, val) m. if expiresAt val < now then AList.delete key m else m) xs ?m'"
      using True x by simp
    also have "\<dots> = filter (\<lambda>(k, v). \<not> ((k, v) \<in> set xs \<and> expiresAt v < now)) ?m'"
      by (rule Cons.IH [OF dxs sub' d'])
    also have "\<dots> = filter (\<lambda>(k', v'). \<not> ((k', v') \<in> set (x # xs) \<and> expiresAt v' < now)) m"
      unfolding AList.delete_eq filter_filter
      by (rule filter_cong) (use True x uniq in auto)
    finally show ?thesis .
  next
    case False
    have "fold (\<lambda>(key, val) m. if expiresAt val < now then AList.delete key m else m) (x # xs) m
          = fold (\<lambda>(key, val) m. if expiresAt val < now then AList.delete key m else m) xs m"
      using False x by simp
    also have "\<dots> = filter (\<lambda>(k, v). \<not> ((k, v) \<in> set xs \<and> expiresAt v < now)) m"
      by (rule Cons.IH [OF dxs sub Cons.prems(3)])
    also have "\<dots> = filter (\<lambda>(k', v'). \<not> ((k', v') \<in> set (x # xs) \<and> expiresAt v' < now)) m"
      by (rule filter_cong) (use False x in auto)
    finally show ?thesis .
  qed
qed

lemma sweep_filter:
  "distinct (map fst ss) \<Longrightarrow>
   sweep now ss = filter (\<lambda>(k, s). now \<le> expiresAt s) ss"
  unfolding sweep_def
  by (subst sweep_fold) (auto intro: filter_cong)

section \<open>What normalization guarantees\<close>

lemma and_then_Inr: "and_then r f = Inr b \<longleftrightarrow> (\<exists>a. r = Inr a \<and> f a = Inr b)"
  by (cases r) (simp_all add: and_then_def)

lemma sanitizeText_length: "sanitizeText B v n = Inr s \<Longrightarrow> 0 < n \<Longrightarrow> length s \<le> n"
  by (auto simp: sanitizeText_def Let_def and_then_Inr)

lemma qty_range:
  "\<exists>n::nat. Math_max (Fin 1) (Math_min (Fin 99) (Math_round (num_or x (Fin 1)))) = Fin (of_nat n)
            \<and> 1 \<le> n \<and> n \<le> 99"
proof (cases "num_or x (Fin 1)")
  case (Fin q)
  let ?k = "max 1 (min 99 \<lfloor>q + 1 / 2\<rfloor>)"
  have "Math_max (Fin 1) (Math_min (Fin 99) (Math_round (Fin q))) = Fin (of_int ?k)"
    by (simp add: of_int_max of_int_min)
  moreover have "of_int ?k = (of_nat (nat ?k) :: rat)" by simp
  moreover have "1 \<le> nat ?k" "nat ?k \<le> 99" by simp_all
  ultimately show ?thesis using Fin by metis
next
  case PInf
  have "Fin 99 = Fin (of_nat 99)" by simp
  with PInf show ?thesis by (intro exI [of _ 99]) simp
next
  case NInf
  then show ?thesis by (intro exI [of _ 1]) simp
next
  case NaN
  then show ?thesis by (simp add: num_or_def num_truthy_def split: if_splits)
qed

lemma price_range:
  "Math_max (Fin 0) (Math_round (num_or x (Fin 0))) = PInf \<or>
   (\<exists>n::nat. Math_max (Fin 0) (Math_round (num_or x (Fin 0))) = Fin (of_nat n))"
proof (cases "num_or x (Fin 0)")
  case (Fin q)
  let ?k = "max 0 \<lfloor>q + 1 / 2\<rfloor>"
  have "Math_max (Fin 0) (Math_round (Fin q)) = Fin (of_int ?k)"
    by (simp add: of_int_max)
  moreover have "of_int ?k = (of_nat (nat ?k) :: rat)" by simp
  ultimately show ?thesis using Fin by metis
next
  case PInf
  then show ?thesis by simp
next
  case NInf
  then show ?thesis by (intro disjI2 exI [of _ 0]) simp
next
  case NaN
  then show ?thesis by (simp add: num_or_def num_truthy_def split: if_splits)
qed

lemma map_items_elem:
  "map_items B xs = Inr its \<Longrightarrow> it \<in> set its \<Longrightarrow> \<exists>raw. normalize_item B raw = Inr it"
proof (induction xs arbitrary: its)
  case Nil
  then show ?case by simp
next
  case (Cons x xs)
  from Cons.prems(1) obtain y ys where y: "normalize_item B x = Inr y"
    and ys: "map_items B xs = Inr ys" and its: "its = y # ys"
    by (auto simp: and_then_Inr)
  show ?case
  proof (cases "it = y")
    case True
    with y show ?thesis by blast
  next
    case False
    with Cons.prems(2) its have "it \<in> set ys" by simp
    with Cons.IH [OF ys] show ?thesis by blast
  qed
qed

lemma normalizeItems_bounds:
  assumes "normalizeItems B v = Inr its" and "it \<in> set its"
  shows "name it \<noteq> [] \<and> length (name it) \<le> 120 \<and> length (image_url it) \<le> 2048 \<and>
         (\<exists>n::nat. qty it = Fin (of_nat n) \<and> 1 \<le> n \<and> n \<le> 99) \<and>
         (price it = PInf \<or> (\<exists>n::nat. price it = Fin (of_nat n)))"
proof -
  from assms obtain all_its where m: "map_items B (elements v) = Inr all_its"
    and sel: "its = filter (\<lambda>it. name it \<noteq> []) all_its"
    by (auto simp: normalizeItems_def and_then_Inr split: if_splits)
  from sel assms(2) have nm: "name it \<noteq> []" and mem: "it \<in> set all_its" by simp_all
  from map_items_elem [OF m mem] obtain raw where "normalize_item B raw = Inr it" by blast
  then obtain n0 p q img where n0: "sanitizeText B (guarded raw ''name'') 120 = Inr n0"
    and img: "sanitizeText B (guarded raw ''image'') 2048 = Inr img"
    and it: "it = \<lparr> name = n0,
             price = Math_max (Fin 0) (Math_round (num_or p (Fin 0))),
             qty = Math_max (Fin 1) (Math_min (Fin 99) (Math_round (num_or q (Fin 1)))),
             image_url = img \<rparr>"
    by (auto simp: normalize_item_def and_then_Inr)
  have "length (name it) \<le> 120" "length (image_url it) \<le> 2048"
    using sanitizeText_length [OF n0] sanitizeText_length [OF img] by (simp_all add: it)
  moreover have "\<exists>n::nat. qty it = Fin (of_nat n) \<and> 1 \<le> n \<and> n \<le> 99"
    using qty_range [of q] by (simp add: it)
  moreover have "price it = PInf \<or> (\<exists>n::nat. price it = Fin (of_nat n))"
    using price_range [of p] by (simp add: it)
  ultimately show ?thesis using nm by simp
qed

section \<open>Storage calls and the transaction\<close>

lemma storage_call_fault:
  "fault_at (faults w) 0 \<Longrightarrow> storage_call f w = (Inl IoFault, w\<lparr> faults := tl (faults w) \<rparr>)"
  by (cases "faults w") (auto simp: storage_call_def fault_at_def split: list.splits bool.splits)

lemma storage_call_ok:
  "\<not> fault_at (faults w) 0 \<Longrightarrow>
   storage_call f w = (case f (db w) of
                         Inl e \<Rightarrow> (Inl e, w\<lparr> faults := tl (faults w) \<rparr>)
                       | Inr (r, d) \<Rightarrow> (Inr r, w\<lparr> faults := tl (faults w), db := d \<rparr>))"
  by (cases "faults w") (auto simp: storage_call_def fault_at_def split: list.splits bool.splits)

lemma fault_at_Suc: "fault_at fs (Suc i) = fault_at (tl fs) i"
  by (cases fs) (auto simp: fault_at_def)

lemma no_fault_Suc:
  "True \<notin> set (take (Suc n) fs) \<longleftrightarrow> \<not> fault_at fs 0 \<and> True \<notin> set (take n (tl fs))"
  by (cases fs) (auto simp: fault_at_def)

lemma insert_items_ok:
  "True \<notin> set (take (length items) (faults w)) \<Longrightarrow>
   oid \<in> set (map o_id (orders (cur (db w)))) \<Longrightarrow>
   insert_items oid items w =
     (Inr (), w\<lparr> faults := drop (length items) (faults w),
                 db := (db w)\<lparr> cur := (cur (db w))\<lparr>
                     order_items := order_items (cur (db w)) @ item_rows oid (seq_items (cur (db w))) items,
                     seq_items := seq_items (cur (db w)) + length items \<rparr> \<rparr> \<rparr>)"
proof (induction items arbitrary: w)
  case Nil
  then show ?case by (simp add: item_rows_def)
next
  case (Cons it its)
  from Cons.prems(1) have nf: "\<not> fault_at (faults w) 0"
    and rest: "True \<notin> set (take (length its) (tl (faults w)))"
    by (simp_all add: no_fault_Suc)
  let ?w1 = "w\<lparr> faults := tl (faults w),
                db := (db w)\<lparr> cur := (cur (db w))\<lparr>
                   order_items := order_items (cur (db w)) @ [\<lparr> i_id = Suc (seq_items (cur (db w))), order_id = oid, cols = it \<rparr>],
                   seq_items := Suc (seq_items (cur (db w))) \<rparr> \<rparr> \<rparr>"
  have step: "run (InsertItem oid it) w = (Inr \<lparr> lastID = Suc (seq_items (cur (db w))), changes = 1 \<rparr>, ?w1)"
    using Cons.prems(2) nf by (simp add: run_def storage_call_ok Let_def)
  have "insert_items oid (it # its) w = insert_items oid its ?w1"
    by (simp add: await_def step)
  also have "\<dots> = (Inr (), ?w1\<lparr> faults := drop (length its) (faults ?w1),
                 db := (db ?w1)\<lparr> cur := (cur (db ?w1))\<lparr>
                     order_items := order_items (cur (db ?w1)) @ item_rows oid (seq_items (cur (db ?w1))) its,
                     seq_items := seq_items (cur (db ?w1)) + length its \<rparr> \<rparr> \<rparr>)"
    by (rule Cons.IH) (use rest Cons.prems(2) in simp_all)
  also have "\<dots> = (Inr (), w\<lparr> faults := drop (length (it # its)) (faults w),
                 db := (db w)\<lparr> cur := (cur (db w))\<lparr>
                     order_items := order_items (cur (db w)) @ item_rows oid (seq_items (cur (db w))) (it # its),
                     seq_items := seq_items (cur (db w)) + length (it # its) \<rparr> \<rparr> \<rparr>)"
    by (simp add: item_rows_def drop_Suc)
  finally show ?case .
qed

lemma insert_items_fault:
  "True \<notin> set (take j (faults w)) \<Longrightarrow> fault_at (faults w) j \<Longrightarrow> j < length items \<Longrightarrow>
   oid \<in> set (map o_id (orders (cur (db w)))) \<Longrightarrow>
   insert_items oid items w =
     (Inl IoFault, w\<lparr> faults := drop (Suc j) (faults w),
                 db := (db w)\<lparr> cur := (cur (db w))\<lparr>
                     order_items := order_items (cur (db w)) @ item_rows oid (seq_items (cur (db w))) (take j items),
                     seq_items := seq_items (cur (db w)) + j \<rparr> \<rparr> \<rparr>)"
proof (induction items arbitrary: w j)
  case Nil
  then show ?case by simp
next
  case (Cons it its)
  show ?case
  proof (cases j)
    case 0
    with Cons.prems have "run (InsertItem oid it) w = (Inl IoFault, w\<lparr> faults := tl (faults w) \<rparr>)"
      by (simp add: run_def storage_call_fault)
    then show ?thesis using 0
      by (simp add: await_def item_rows_def drop_Suc)
  next
    case (Suc j')
    from Cons.prems(1) Suc have nf: "\<not> fault_at (faults w) 0"
      and rest: "True \<notin> set (take j' (tl (faults w)))"
      by (simp_all add: no_fault_Suc)
    from Cons.prems(2) Suc have flt: "fault_at (tl (faults w)) j'"
      by (simp add: fault_at_Suc)
    from Cons.prems(3) Suc have lt: "j' < length its" by simp
    let ?w1 = "w\<lparr> faults := tl (faults w),
                  db := (db w)\<lparr> cur := (cur (db w))\<lparr>
                     order_items := order_items (cur (db w)) @ [\<lparr> i_id = Suc (seq_items (cur (db w))), order_id = oid, cols = it \<rparr>],
                     seq_items := Suc (seq_items (cur (db w))) \<rparr> \<rparr> \<rparr>"
    have step: "run (InsertItem oid it) w = (Inr \<lparr> lastID = Suc (seq_items (cur (db w))), changes = 1 \<rparr>, ?w1)"
      using Cons.prems(4) nf by (simp add: run_def storage_call_ok Let_def)
    have "insert_items oid (it # its) w = insert_items oid its ?w1"
      by (simp add: await_def step)
    also have "\<dots> = (Inl IoFault, ?w1\<lparr> faults := drop (Suc j') (faults ?w1),
                 db := (db ?w1)\<lparr> cur := (cur (db ?w1))\<lparr>
                     order_items := order_items (cur (db ?w1)) @ item_rows oid (seq_items (cur (db ?w1))) (take j' its),
                     seq_items := seq_items (cur (db ?w1)) + j' \<rparr> \<rparr> \<rparr>)"
      by (rule Cons.IH) (use rest flt lt Cons.prems(4) in simp_all)
    also have "\<dots> = (Inl IoFault, w\<lparr> faults := drop (Suc j) (faults w),
                 db := (db w)\<lparr> cur := (cur (db w))\<lparr>
                     order_items := order_items (cur (db w)) @ item_rows oid (seq_items (cur (db w))) (take j (it # its)),
                     seq_items := seq_items (cur (db w)) + j \<rparr> \<rparr> \<rparr>)"
      using Suc by (simp add: item_rows_def drop_Suc)
    finally show ?thesis .
  qed
qed

lemma run_begin_ok:
  "\<not> fault_at (faults w) 0 \<Longrightarrow> saved (db w) = None \<Longrightarrow>
   run Begin w = (Inr \<lparr> lastID = 0, changes = 0 \<rparr>,
                  w\<lparr> faults := tl (faults w), db := (db w)\<lparr> saved := Some (cur (db w)) \<rparr> \<rparr>)"
  by (simp add: run_def storage_call_ok)

lemma run_insert_order_ok:
  "\<not> fault_at (faults w) 0 \<Longrightarrow>
   run (InsertOrder cn tn nt tot now) w =
     (Inr \<lparr> lastID = Suc (seq_orders (cur (db w))), changes = 1 \<rparr>,
      w\<lparr> faults := tl (faults w),
         db := (db w)\<lparr> cur := (cur (db w))\<lparr>
                  orders := orders (cur (db w)) @ [new_order cn tn nt tot now (cur (db w))],
                  seq_orders := Suc (seq_orders (cur (db w))) \<rparr> \<rparr> \<rparr>)"
  by (simp add: run_def storage_call_ok Let_def new_order_def)

lemma run_fault:
  "fault_at (faults w) 0 \<Longrightarrow> run st w = (Inl IoFault, w\<lparr> faults := tl (faults w) \<rparr>)"
  by (simp add: run_def storage_call_fault)

lemma run_commit_ok:
  "\<not> fault_at (faults w) 0 \<Longrightarrow> saved (db w) \<noteq> None \<Longrightarrow>
   run Commit w = (Inr \<lparr> lastID = 0, changes = 0 \<rparr>,
                   w\<lparr> faults := tl (faults w), db := (db w)\<lparr> saved := None \<rparr> \<rparr>)"
  by (simp add: run_def storage_call_ok)


lemma run_rollback_closed:
  "saved (db w) = None \<Longrightarrow> snd (run Rollback w) = w\<lparr> faults := tl (faults w) \<rparr>"
  by (cases "fault_at (faults w) 0") (simp_all add: run_def storage_call_ok storage_call_fault)

lemma fault_at_drop: "fault_at (drop n fs) i = fault_at fs (n + i)"
  by (auto simp: fault_at_def)

lemma fault_at_tl: "fault_at (tl fs) i = fault_at fs (Suc i)"
  by (simp add: fault_at_Suc)

lemma create_try_fault:
  assumes idle: "saved (db w) = None"
    and before: "True \<notin> set (take j (faults w))"
    and at: "fault_at (faults w) j"
    and lo: "1 \<le> j" and hi: "j \<le> length items + 2"
  shows "\<exists>w1. create_try now cn tn nt tot items w = (Inl IoFault, w1) \<and>
              saved (db w1) = Some (cur (db w)) \<and> faults w1 = drop (Suc j) (faults w) \<and>
              same_hub w w1"
proof -
  obtain j1 where j: "j = Suc j1" using lo by (cases j) auto
  from before j have nf0: "\<not> fault_at (faults w) 0"
    and before1: "True \<notin> set (take j1 (tl (faults w)))"
    by (simp_all add: no_fault_Suc)
  let ?wB = "w\<lparr> faults := tl (faults w), db := (db w)\<lparr> saved := Some (cur (db w)) \<rparr> \<rparr>"
  have bgn: "run Begin w = (Inr \<lparr> lastID = 0, changes = 0 \<rparr>, ?wB)"
    using nf0 idle by (rule run_begin_ok)
  show ?thesis
  proof (cases j1)
    case 0
    then have "fault_at (faults ?wB) 0" using at j by (simp add: fault_at_tl)
    then have "run (InsertOrder cn tn nt tot now) ?wB = (Inl IoFault, ?wB\<lparr> faults := tl (faults ?wB) \<rparr>)"
      by (rule run_fault)
    then show ?thesis using bgn 0 j
      by (simp add: create_try_def await_def same_hub_def drop_Suc)
  next
    case (Suc i)
    from before1 Suc have nf1: "\<not> fault_at (faults ?wB) 0"
      and before2: "True \<notin> set (take i (tl (tl (faults w))))"
      by (simp_all add: no_fault_Suc)
    let ?oid = "Suc (seq_orders (cur (db w)))"
    let ?wO = "?wB\<lparr> faults := tl (faults ?wB),
                   db := (db ?wB)\<lparr> cur := (cur (db ?wB))\<lparr>
                      orders := orders (cur (db ?wB)) @ [new_order cn tn nt tot now (cur (db ?wB))],
                      seq_orders := Suc (seq_orders (cur (db ?wB))) \<rparr> \<rparr> \<rparr>"
    have ins: "run (InsertOrder cn tn nt tot now) ?wB = (Inr \<lparr> lastID = ?oid, changes = 1 \<rparr>, ?wO)"
      using run_insert_order_ok [OF nf1] by simp
    have fk: "?oid \<in> set (map o_id (orders (cur (db ?wO))))"
      by (simp add: new_order_def)
    have at2: "fault_at (faults ?wO) i"
      using at j Suc by (simp add: fault_at_tl)
    have before3: "True \<notin> set (take i (faults ?wO))"
      using before2 by simp
    from hi j Suc have "i \<le> length items" by simp
    then consider (item) "i < length items" | (commit) "i = length items" by linarith
    then show ?thesis
    proof cases
      case item
      let ?wF = "?wO\<lparr> faults := drop (Suc i) (faults ?wO),
                 db := (db ?wO)\<lparr> cur := (cur (db ?wO))\<lparr>
                     order_items := order_items (cur (db ?wO)) @ item_rows ?oid (seq_items (cur (db ?wO))) (take i items),
                     seq_items := seq_items (cur (db ?wO)) + i \<rparr> \<rparr> \<rparr>"
      have loop: "insert_items ?oid items ?wO = (Inl IoFault, ?wF)"
        using before3 at2 item fk by (rule insert_items_fault)
      have "create_try now cn tn nt tot items w = (Inl IoFault, ?wF)"
        by (simp only: create_try_def await_def bgn ins loop prod.case sum.case run_result.select_convs)
      moreover have "saved (db ?wF) = Some (cur (db w))" by simp
      moreover have "faults ?wF = drop (Suc j) (faults w)" using j Suc by (simp add: drop_Suc)
      moreover have "same_hub w ?wF" by (simp add: same_hub_def)
      ultimately show ?thesis by blast
    next
      case commit
      let ?wI = "?wO\<lparr> faults := drop (length items) (faults ?wO),
                 db := (db ?wO)\<lparr> cur := (cur (db ?wO))\<lparr>
                     order_items := order_items (cur (db ?wO)) @ item_rows ?oid (seq_items (cur (db ?wO))) items,
                     seq_items := seq_items (cur (db ?wO)) + length items \<rparr> \<rparr> \<rparr>"
      have loop: "insert_items ?oid items ?wO = (Inr (), ?wI)"
        using before3 fk unfolding commit by (rule insert_items_ok)
      have "fault_at (faults ?wI) 0"
        using at2 commit by (simp add: fault_at_drop)
      then have cm: "run Commit ?wI = (Inl IoFault, ?wI\<lparr> faults := tl (faults ?wI) \<rparr>)"
        by (rule run_fault)
      have "create_try now cn tn nt tot items w = (Inl IoFault, ?wI\<lparr> faults := tl (faults ?wI) \<rparr>)"
        by (simp only: create_try_def await_def bgn ins loop cm prod.case sum.case run_result.select_convs)
      moreover have "saved (db (?wI\<lparr> faults := tl (faults ?wI) \<rparr>)) = Some (cur (db w))" by simp
      moreover have "faults (?wI\<lparr> faults := tl (faults ?wI) \<rparr>) = drop (Suc j) (faults w)"
        using j Suc commit by (simp add: drop_Suc tl_drop)
      moreover have "same_hub w (?wI\<lparr> faults := tl (faults ?wI) \<rparr>)" by (simp add: same_hub_def)
      ultimately show ?thesis by blast
    qed
  qed
qed





section \<open>The hub: pruning and framing\<close>

lemma hub_step_refl: "hub_step w w"
  by (simp add: hub_step_def)

lemma hub_step_trans: "hub_step a b \<Longrightarrow> hub_step b c \<Longrightarrow> hub_step a c"
proof -
  assume ab: "hub_step a b" and bc: "hub_step b c"
  from ab obtain m1 where sub1: "set (sseClients b) \<subseteq> set (sseClients a)"
    and m1: "wire b = wire a @ m1" "\<forall>x\<in>set m1. effect_conn x \<in> res ` set (sseClients a)"
    unfolding hub_step_def by blast
  from bc obtain m2 where sub2: "set (sseClients c) \<subseteq> set (sseClients b)"
    and m2: "wire c = wire b @ m2" "\<forall>x\<in>set m2. effect_conn x \<in> res ` set (sseClients b)"
    unfolding hub_step_def by blast
  have "wire c = wire a @ (m1 @ m2)" using m1 m2 by simp
  moreover have "res ` set (sseClients b) \<subseteq> res ` set (sseClients a)"
    using sub1 by (rule image_mono)
  then have "\<forall>x\<in>set (m1 @ m2). effect_conn x \<in> res ` set (sseClients a)"
    using m1(2) m2(2) by auto
  ultimately show "hub_step a c"
    unfolding hub_step_def using sub1 sub2 by blast
qed

lemma same_hub_step: "same_hub w w' \<Longrightarrow> hub_step w w'"
  by (simp add: hub_step_def same_hub_def)

lemma getSession_again:
  "fst (getSession t now (snd (getSession k now ss))) = fst (getSession t now ss)"
  by (auto simp: getSession_def delete_conv split: option.splits)

lemma visit_frame:
  "db (visit e p now c w) = db w" "faults (visit e p now c w) = faults w"
  "broken (visit e p now c w) = broken w" "published (visit e p now c w) = published w"
  by (auto simp: visit_def drop_client_def sendSse_def split: prod.splits option.splits sum.splits if_splits)

lemma visit_sessions:
  "sessions (visit e p now c w) = snd (getSession (c_token c) now (sessions w))"
  by (auto simp: visit_def drop_client_def sendSse_def split: prod.splits option.splits sum.splits if_splits)

lemma visit_valid:
  "fst (getSession t now (sessions (visit e p now c w))) = fst (getSession t now (sessions w))"
  by (simp add: visit_sessions getSession_again)

lemma visit_invalid:
  "fst (getSession (c_token c) now (sessions w)) = None \<Longrightarrow>
   sseClients (visit e p now c w) = removeAll c (sseClients w) \<and>
   wire (visit e p now c w) = wire w @ [End (res c)]"
  by (auto simp: visit_def drop_client_def split: prod.splits option.splits)

lemma visit_wire:
  "\<exists>more. wire (visit e p now c w) = wire w @ more \<and> (\<forall>x\<in>set more. effect_conn x = res c)"
  by (auto simp: visit_def drop_client_def sendSse_def split: prod.splits option.splits sum.splits if_splits)

lemma visit_clients:
  "set (sseClients (visit e p now c w)) \<subseteq> set (sseClients w)"
  by (auto simp: visit_def drop_client_def sendSse_def split: prod.splits option.splits sum.splits if_splits)

lemma fold_visit_frame:
  "db (fold (visit e p now) cs w) = db w" "faults (fold (visit e p now) cs w) = faults w"
  "broken (fold (visit e p now) cs w) = broken w" "published (fold (visit e p now) cs w) = published w"
  by (induction cs arbitrary: w) (simp_all add: visit_frame)

lemma fold_visit_valid:
  "fst (getSession t now (sessions (fold (visit e p now) cs w))) = fst (getSession t now (sessions w))"
  by (induction cs arbitrary: w) (simp_all add: visit_valid)

lemma fold_visit_clients:
  "set (sseClients (fold (visit e p now) cs w)) \<subseteq> set (sseClients w)"
proof (induction cs arbitrary: w)
  case Nil
  show ?case by simp
next
  case (Cons c cs)
  have "set (sseClients (fold (visit e p now) cs (visit e p now c w))) \<subseteq> set (sseClients (visit e p now c w))"
    by (rule Cons.IH)
  also have "\<dots> \<subseteq> set (sseClients w)" by (rule visit_clients)
  finally show ?case by simp
qed

lemma fold_visit_wire:
  "\<exists>more. wire (fold (visit e p now) cs w) = wire w @ more \<and> (\<forall>x\<in>set more. effect_conn x \<in> res ` set cs)"
proof (induction cs arbitrary: w)
  case Nil
  show ?case by simp
next
  case (Cons c cs)
  obtain m1 where m1: "wire (visit e p now c w) = wire w @ m1" "\<forall>x\<in>set m1. effect_conn x = res c"
    using visit_wire by blast
  obtain m2 where m2: "wire (fold (visit e p now) cs (visit e p now c w)) = wire (visit e p now c w) @ m2"
      "\<forall>x\<in>set m2. effect_conn x \<in> res ` set cs"
    using Cons.IH by blast
  have "wire (fold (visit e p now) (c # cs) w) = wire w @ (m1 @ m2)"
    using m1 m2 by simp
  moreover have "\<forall>x\<in>set (m1 @ m2). effect_conn x \<in> res ` set (c # cs)"
    using m1 m2 by auto
  ultimately show ?case by blast
qed

lemma hub_step_broadcast: "hub_step w (broadcast e p now w)"
proof -
  let ?w0 = "w\<lparr> published := published w @ [(e, p)] \<rparr>"
  have "set (sseClients (fold (visit e p now) (sseClients w) ?w0)) \<subseteq> set (sseClients ?w0)"
    by (rule fold_visit_clients)
  moreover obtain more where "wire (fold (visit e p now) (sseClients w) ?w0) = wire ?w0 @ more"
    "\<forall>x\<in>set more. effect_conn x \<in> res ` set (sseClients w)"
    using fold_visit_wire by blast
  ultimately show ?thesis
    unfolding hub_step_def broadcast_def by auto
qed

lemma broadcast_frame:
  "db (broadcast e p now w) = db w" "faults (broadcast e p now w) = faults w"
  "broken (broadcast e p now w) = broken w"
  "published (broadcast e p now w) = published w @ [(e, p)]"
  by (simp_all add: broadcast_def fold_visit_frame)

lemma fold_visit_prunes:
  assumes "c \<in> set cs" and "fst (getSession (c_token c) now (sessions w)) = None"
    and "distinct (map res cs)"
  shows "c \<notin> set (sseClients (fold (visit e p now) cs w)) \<and>
         (\<exists>more. wire (fold (visit e p now) cs w) = wire w @ more \<and> End (res c) \<in> set more \<and>
                 (\<forall>ch. Write (res c) ch \<notin> set more))"
  using assms
proof (induction cs arbitrary: w)
  case Nil
  then show ?case by simp
next
  case (Cons x xs)
  let ?w1 = "visit e p now x w"
  show ?case
  proof (cases "x = c")
    case True
    from visit_invalid [OF Cons.prems(2)] True
    have cl: "sseClients ?w1 = removeAll c (sseClients w)"
      and wr: "wire ?w1 = wire w @ [End (res c)]" by simp_all
    have "set (sseClients (fold (visit e p now) xs ?w1)) \<subseteq> set (sseClients ?w1)"
      by (rule fold_visit_clients)
    then have gone: "c \<notin> set (sseClients (fold (visit e p now) (x # xs) w))"
      using cl by auto
    obtain m2 where m2: "wire (fold (visit e p now) xs ?w1) = wire ?w1 @ m2"
      "\<forall>y\<in>set m2. effect_conn y \<in> res ` set xs"
      using fold_visit_wire by blast
    from Cons.prems(3) True have "res c \<notin> res ` set xs" by auto
    with m2(2) have nowrite: "\<forall>ch. Write (res c) ch \<notin> set m2" by force
    have "wire (fold (visit e p now) (x # xs) w) = wire w @ (End (res c) # m2)"
      using m2 wr by simp
    moreover have "End (res c) \<in> set (End (res c) # m2)" by simp
    moreover have "\<forall>ch. Write (res c) ch \<notin> set (End (res c) # m2)" using nowrite by simp
    ultimately show ?thesis using gone by blast
  next
    case False
    with Cons.prems have cin: "c \<in> set xs" and dx: "distinct (map res xs)"
      and rx: "res x \<noteq> res c" by auto
    have inv: "fst (getSession (c_token c) now (sessions ?w1)) = None"
      using Cons.prems(2) by (simp add: visit_valid)
    from Cons.IH [OF cin inv dx] obtain m2 where
      gone: "c \<notin> set (sseClients (fold (visit e p now) xs ?w1))"
      and m2: "wire (fold (visit e p now) xs ?w1) = wire ?w1 @ m2" "End (res c) \<in> set m2"
        "\<forall>ch. Write (res c) ch \<notin> set m2"
      by blast
    obtain m1 where m1: "wire ?w1 = wire w @ m1" "\<forall>y\<in>set m1. effect_conn y = res x"
      using visit_wire by blast
    from m1(2) rx have "\<forall>ch. Write (res c) ch \<notin> set m1" by force
    with m2 have "\<forall>ch. Write (res c) ch \<notin> set (m1 @ m2)" by simp
    moreover have "wire (fold (visit e p now) (x # xs) w) = wire w @ (m1 @ m2)"
      using m1 m2 by simp
    moreover have "End (res c) \<in> set (m1 @ m2)" using m2 by simp
    moreover have "c \<notin> set (sseClients (fold (visit e p now) (x # xs) w))"
      using gone by simp
    ultimately show ?thesis by blast
  qed
qed

lemma same_hub_storage_call: "same_hub w (snd (storage_call f w))"
  by (auto simp: same_hub_def storage_call_def split: list.splits bool.splits sum.splits)

lemma hub_step_run: "hub_step w (snd (run st w))"
  unfolding run_def by (rule same_hub_step, rule same_hub_storage_call)

lemma hub_step_await:
  assumes "\<And>w. hub_step w (snd (m w))" and "\<And>a w. hub_step w (snd (f a w))"
  shows "hub_step w (snd (await m f w))"
proof (cases "m w")
  case (Pair r w1)
  have h1: "hub_step w w1" using assms(1) [of w] Pair by simp
  show ?thesis
  proof (cases r)
    case (Inl e)
    then show ?thesis using Pair h1 by (simp add: await_def)
  next
    case (Inr a)
    have "hub_step w1 (snd (f a w1))" by (rule assms(2))
    with h1 have "hub_step w (snd (f a w1))" by (rule hub_step_trans)
    then show ?thesis using Pair Inr by (simp add: await_def)
  qed
qed

lemma hub_step_insert_items: "hub_step w (snd (insert_items oid items w))"
proof (induction items arbitrary: w)
  case Nil
  show ?case by (simp add: hub_step_refl)
next
  case (Cons it its)
  show ?case
    unfolding insert_items.simps
    by (rule hub_step_await) (rule hub_step_run, rule Cons.IH)
qed

lemma hub_step_getOrderById: "hub_step w (snd (getOrderById oid w))"
  unfolding getOrderById_def
proof (rule hub_step_await)
  show "hub_step w (snd (get_order oid w))" for w
    unfolding get_order_def by (rule same_hub_step, rule same_hub_storage_call)
  show "hub_step w (snd ((case a of None \<Rightarrow> \<lambda>w. (Inr None, w)
          | Some row \<Rightarrow> await (all_items oid) (\<lambda>its w. (Inr (Some (row, its)), w))) w))" for a w
  proof (cases a)
    case None
    then show ?thesis by (simp add: hub_step_refl)
  next
    case (Some row)
    have "hub_step w (snd (await (all_items oid) (\<lambda>its w. (Inr (Some (row, its)), w)) w))"
    proof (rule hub_step_await)
      show "hub_step w (snd (all_items oid w))" for w
        unfolding all_items_def by (rule same_hub_step, rule same_hub_storage_call)
      show "hub_step w (snd (Inr (Some (row, a)), w))" for a w
        by (simp add: hub_step_refl)
    qed
    with Some show ?thesis by simp
  qed
qed

lemma hub_step_create_try: "hub_step w (snd (create_try now cn tn nt tot items w))"
  unfolding create_try_def
  apply (rule hub_step_await, rule hub_step_run)
  apply (rule hub_step_await, rule hub_step_run)
  apply (rule hub_step_await, rule hub_step_insert_items)
  apply (rule hub_step_await, rule hub_step_run)
  apply (rule hub_step_await, rule hub_step_getOrderById)
  apply (simp add: hub_step_broadcast)
  done

lemma createOrder_unfold:
  assumes "read_body B body = Inr (cn, tn, nt, items)"
  shows "createOrder B now body w =
     (if items = [] then (Reply 400 NoItems, w)
      else case create_try now (toStoredText B cn) (toStoredText B tn) (toStoredText B nt)
                  (order_total B items) (map (stored B) items) w of
             (Inr orderId, w1) \<Rightarrow> (ReplyCreated 201 OrderSaved orderId (order_total B items), w1)
           | (Inl err, w1) \<Rightarrow> (Reply 500 SaveFailed, snd (run Rollback w1)))"
  using assms by (simp add: createOrder_def Let_def)

lemma createOrder_threw: "read_body B body = Inl e \<Longrightarrow> createOrder B now body w = (Threw, w)"
  by (simp add: createOrder_def)

lemma hub_step_createOrder: "hub_step w (snd (createOrder B now body w))"
proof (cases "read_body B body")
  case (Inl e)
  then show ?thesis by (simp add: createOrder_threw hub_step_refl)
next
  case (Inr parsed)
  obtain cn tn nt items where parsed: "parsed = (cn, tn, nt, items)" by (cases parsed)
  note unfold = createOrder_unfold [OF Inr [unfolded parsed]]
  show ?thesis
  proof (cases "items = []")
    case True
    then show ?thesis by (simp add: unfold hub_step_refl)
  next
    case False
    let ?t = "create_try now (toStoredText B cn) (toStoredText B tn) (toStoredText B nt)
                  (order_total B items) (map (stored B) items) w"
    have h: "hub_step w (snd ?t)" by (rule hub_step_create_try)
    obtain r w1 where t: "?t = (r, w1)" by (cases ?t)
    show ?thesis
    proof (cases r)
      case (Inl e)
      have "hub_step w1 (snd (run Rollback w1))" by (rule hub_step_run)
      with h t have "hub_step w (snd (run Rollback w1))" by (auto intro: hub_step_trans)
      then show ?thesis using False t Inl by (simp add: unfold)
    next
      case (Inr oid)
      then show ?thesis using False t h by (simp add: unfold)
    qed
  qed
qed

lemma hub_step_update_try: "hub_step w (snd (update_try now st oid w))"
  unfolding update_try_def
proof (rule hub_step_await)
  show "hub_step w (snd (run (UpdateStatus st now oid) w))" for w by (rule hub_step_run)
  show "hub_step w (snd ((if changes a = 0 then (\<lambda>w. (Inr (Reply 404 OrderNotFound), w))
          else await (getOrderById oid) (\<lambda>order w. (Inr (ReplyOrder 200 StatusUpdated order),
               broadcast ''order'' (OrderUpdated order) now w))) w))" for a w
  proof (cases "changes a = 0")
    case True
    then show ?thesis by (simp add: hub_step_refl)
  next
    case False
    have "hub_step w (snd (await (getOrderById oid) (\<lambda>order w. (Inr (ReplyOrder 200 StatusUpdated order),
               broadcast ''order'' (OrderUpdated order) now w)) w))"
      by (rule hub_step_await, rule hub_step_getOrderById) (simp add: hub_step_broadcast)
    with False show ?thesis by simp
  qed
qed

lemma hub_step_sessions: "hub_step w (w\<lparr> sessions := ss \<rparr>)"
  by (simp add: hub_step_def)

lemma hub_step_updateStatus: "hub_step w (snd (updateStatus B now authorization id_param body w))"
proof -
  obtain r ss where g: "getSession (bearer_token authorization) now (sessions w) = (r, ss)"
    by (cases "getSession (bearer_token authorization) now (sessions w)")
  have a: "authMiddleware authorization now w = (r, w\<lparr> sessions := ss \<rparr>)"
    by (simp add: authMiddleware_def g)
  have h0: "hub_step w (w\<lparr> sessions := ss \<rparr>)" by (rule hub_step_sessions)
  have h1: "hub_step w w1" if "update_try now st oid (w\<lparr> sessions := ss \<rparr>) = (x, w1)" for st oid x w1
  proof -
    have "hub_step (w\<lparr> sessions := ss \<rparr>) (snd (update_try now st oid (w\<lparr> sessions := ss \<rparr>)))"
      by (rule hub_step_update_try)
    with h0 show ?thesis unfolding that by (auto intro: hub_step_trans)
  qed
  show ?thesis
    using h0 h1
    by (auto simp: updateStatus_def a Let_def split: option.splits prod.splits sum.splits)
qed

lemma hub_step_heartbeat: "hub_step w (heartbeat now now' w)"
  unfolding heartbeat_def
  using hub_step_sessions hub_step_broadcast by (rule hub_step_trans)

lemma hub_step_on_close: "hub_step w (on_close c w)"
  by (auto simp: hub_step_def on_close_def)

lemma quiet_trans: "quiet r a b \<Longrightarrow> quiet r b c \<Longrightarrow> quiet r a c"
proof -
  assume ab: "quiet r a b" and bc: "quiet r b c"
  from ab obtain m1 where m1: "wire b = wire a @ m1" "\<forall>ch. Write r ch \<notin> set m1"
    unfolding quiet_def by blast
  from bc obtain m2 where m2: "wire c = wire b @ m2" "\<forall>ch. Write r ch \<notin> set m2"
    and gone: "r \<notin> res ` set (sseClients c)"
    unfolding quiet_def by blast
  have "wire c = wire a @ (m1 @ m2)" using m1 m2 by simp
  moreover have "\<forall>ch. Write r ch \<notin> set (m1 @ m2)" using m1 m2 by simp
  ultimately show "quiet r a c" unfolding quiet_def using gone by blast
qed

lemma hub_step_quiet:
  assumes "hub_step w w'" and "r \<notin> res ` set (sseClients w)"
  shows "quiet r w w'"
proof -
  from assms(1) obtain more where sub: "set (sseClients w') \<subseteq> set (sseClients w)"
    and m: "wire w' = wire w @ more" "\<forall>x\<in>set more. effect_conn x \<in> res ` set (sseClients w)"
    unfolding hub_step_def by blast
  have "r \<notin> res ` set (sseClients w')" using sub assms(2) by auto
  moreover have "\<forall>ch. Write r ch \<notin> set more"
    using m(2) assms(2) by force
  ultimately show ?thesis unfolding quiet_def using m(1) by blast
qed

lemma stream_quiet:
  assumes "r \<notin> res ` set (sseClients w)" and "r' \<noteq> r"
  shows "quiet r w (snd (stream B now now' r' token_param w))"
  using assms
  by (auto simp: quiet_def stream_def Let_def sendSse_def split: prod.splits option.splits sum.splits)

lemma step_quiet:
  assumes "r \<notin> res ` set (sseClients w)" and "stream_of call \<noteq> Some r"
  shows "quiet r w (step B call w)"
proof (cases call)
  case (PostOrder now body)
  then show ?thesis using hub_step_quiet [OF hub_step_createOrder assms(1)] by simp
next
  case (PatchStatus now authorization id_param body)
  then show ?thesis using hub_step_quiet [OF hub_step_updateStatus assms(1)] by simp
next
  case (OpenStream now now' r' token_param)
  then show ?thesis using assms stream_quiet by simp
next
  case (CloseStream c)
  then show ?thesis using hub_step_quiet [OF hub_step_on_close assms(1)] by simp
next
  case (Tick now now')
  then show ?thesis using hub_step_quiet [OF hub_step_heartbeat assms(1)] by simp
next
  case (SessionIssued tok admin_id admin_name now)
  then show ?thesis using assms(1) by (simp add: quiet_def)
next
  case (Environment fs bs)
  then show ?thesis using assms(1) by (simp add: quiet_def)
qed

lemma run_quiet:
  assumes "r \<notin> res ` set (sseClients w)" and "\<forall>call\<in>set calls. stream_of call \<noteq> Some r"
  shows "quiet r w (fold (step B) calls w)"
  using assms
proof (induction calls arbitrary: w)
  case Nil
  then show ?case by (simp add: quiet_def)
next
  case (Cons call calls)
  have q1: "quiet r w (step B call w)"
    using Cons.prems by (intro step_quiet) simp_all
  then have "r \<notin> res ` set (sseClients (step B call w))" by (simp add: quiet_def)
  then have "quiet r (step B call w) (fold (step B) calls (step B call w))"
    using Cons.prems(2) by (intro Cons.IH) simp_all
  with q1 show ?case by (simp add: quiet_trans)
qed

section \<open>The committed transaction\<close>

lemma await_Inr: "m w = (Inr a, w1) \<Longrightarrow> await m f w = f a w1"
  by (simp add: await_def)

lemma await_Inl: "m w = (Inl e, w1) \<Longrightarrow> await m f w = (Inl e, w1)"
  by (simp add: await_def)

lemma create_try_committed:
  assumes idle: "saved (db w) = None"
    and ok: "True \<notin> set (take (length items + 3) (faults w))"
  shows "create_try now cn tn nt tot items w =
           await (getOrderById (Suc (seq_orders (cur (db w)))))
             (\<lambda>order w'. (Inr (Suc (seq_orders (cur (db w)))), broadcast ''order'' (OrderCreated order) now w'))
             (w\<lparr> faults := drop (length items + 3) (faults w),
                 db := \<lparr> cur = with_order cn tn nt tot now items (cur (db w)), saved = None \<rparr> \<rparr>)"
proof -
  from ok have nf0: "\<not> fault_at (faults w) 0"
    and ok1: "True \<notin> set (take (Suc (Suc (length items))) (tl (faults w)))"
    by (simp_all add: no_fault_Suc numeral_3_eq_3)
  let ?wB = "w\<lparr> faults := tl (faults w), db := (db w)\<lparr> saved := Some (cur (db w)) \<rparr> \<rparr>"
  have bgn: "run Begin w = (Inr \<lparr> lastID = 0, changes = 0 \<rparr>, ?wB)"
    using nf0 idle by (rule run_begin_ok)
  from ok1 have nf1: "\<not> fault_at (faults ?wB) 0"
    and ok2: "True \<notin> set (take (Suc (length items)) (tl (tl (faults w))))"
    by (simp_all add: no_fault_Suc)
  let ?oid = "Suc (seq_orders (cur (db w)))"
  let ?wO = "?wB\<lparr> faults := tl (faults ?wB),
                 db := (db ?wB)\<lparr> cur := (cur (db ?wB))\<lparr>
                    orders := orders (cur (db ?wB)) @ [new_order cn tn nt tot now (cur (db ?wB))],
                    seq_orders := Suc (seq_orders (cur (db ?wB))) \<rparr> \<rparr> \<rparr>"
  have ins: "run (InsertOrder cn tn nt tot now) ?wB = (Inr \<lparr> lastID = ?oid, changes = 1 \<rparr>, ?wO)"
    using run_insert_order_ok [OF nf1] by simp
  have fk: "?oid \<in> set (map o_id (orders (cur (db ?wO))))"
    by (simp add: new_order_def)
  have ok3: "True \<notin> set (take (length items) (faults ?wO))"
    using ok2 by (auto simp: in_set_conv_nth)
  let ?wI = "?wO\<lparr> faults := drop (length items) (faults ?wO),
             db := (db ?wO)\<lparr> cur := (cur (db ?wO))\<lparr>
                 order_items := order_items (cur (db ?wO)) @ item_rows ?oid (seq_items (cur (db ?wO))) items,
                 seq_items := seq_items (cur (db ?wO)) + length items \<rparr> \<rparr> \<rparr>"
  have loop: "insert_items ?oid items ?wO = (Inr (), ?wI)"
    using ok3 fk by (rule insert_items_ok)
  have nf2: "\<not> fault_at (faults ?wI) 0"
  proof
    assume "fault_at (faults ?wI) 0"
    then have "fault_at (tl (tl (faults w))) (length items)" by (simp add: fault_at_drop)
    then have "True \<in> set (take (Suc (length items)) (tl (tl (faults w))))"
      by (auto simp: fault_at_def in_set_conv_nth intro!: exI [of _ "length items"])
    with ok2 show False by simp
  qed
  have sv: "saved (db ?wI) \<noteq> None" by simp
  have cm: "run Commit ?wI = (Inr \<lparr> lastID = 0, changes = 0 \<rparr>,
                   ?wI\<lparr> faults := tl (faults ?wI), db := (db ?wI)\<lparr> saved := None \<rparr> \<rparr>)"
    using nf2 sv by (rule run_commit_ok)
  have final: "?wI\<lparr> faults := tl (faults ?wI), db := (db ?wI)\<lparr> saved := None \<rparr> \<rparr>
      = w\<lparr> faults := drop (length items + 3) (faults w),
           db := \<lparr> cur = with_order cn tn nt tot now items (cur (db w)), saved = None \<rparr> \<rparr>"
    by (cases w; cases "db w") (simp add: with_order_def new_order_def drop_Suc tl_drop numeral_3_eq_3)
  show ?thesis
    unfolding create_try_def
    apply (subst await_Inr [where m = "run Begin", OF bgn])
    apply (subst await_Inr [where m = "run (InsertOrder cn tn nt tot now)", OF ins])
    apply (simp only: run_result.select_convs)
    apply (subst await_Inr [where m = "insert_items ?oid items", OF loop])
    apply (subst await_Inr [where m = "run Commit", OF cm])
    apply (simp only: final)
    done
qed

section \<open>Reading an order back\<close>

lemma get_order_ok:
  "\<not> fault_at (faults w) 0 \<Longrightarrow>
   get_order oid w = (Inr (select_order oid (cur (db w))), w\<lparr> faults := tl (faults w) \<rparr>)"
  by (simp add: get_order_def storage_call_ok)

lemma all_items_ok:
  "\<not> fault_at (faults w) 0 \<Longrightarrow>
   all_items oid w = (Inr (select_items oid (cur (db w))), w\<lparr> faults := tl (faults w) \<rparr>)"
  by (simp add: all_items_def storage_call_ok)

lemma getOrderById_fault:
  assumes found: "select_order oid (cur (db w)) \<noteq> None"
    and j: "j < 2" and before: "True \<notin> set (take j (faults w))" and at: "fault_at (faults w) j"
  shows "getOrderById oid w = (Inl IoFault, w\<lparr> faults := drop (Suc j) (faults w) \<rparr>)"
proof (cases j)
  case 0
  with at have "get_order oid w = (Inl IoFault, w\<lparr> faults := tl (faults w) \<rparr>)"
    by (simp add: get_order_def storage_call_fault)
  then show ?thesis using 0 by (simp add: getOrderById_def await_def drop_Suc)
next
  case (Suc j')
  with j have j1: "j = Suc 0" by simp
  from before j1 have nf: "\<not> fault_at (faults w) 0" by (simp add: no_fault_Suc)
  from found obtain row where row: "select_order oid (cur (db w)) = Some row" by blast
  have g: "get_order oid w = (Inr (Some row), w\<lparr> faults := tl (faults w) \<rparr>)"
    using get_order_ok [OF nf] row by simp
  have "fault_at (faults (w\<lparr> faults := tl (faults w) \<rparr>)) 0"
    using at j1 by (simp add: fault_at_tl)
  then have a: "all_items oid (w\<lparr> faults := tl (faults w) \<rparr>)
      = (Inl IoFault, w\<lparr> faults := tl (faults w) \<rparr>\<lparr> faults := tl (faults (w\<lparr> faults := tl (faults w) \<rparr>)) \<rparr>)"
    unfolding all_items_def by (rule storage_call_fault)
  show ?thesis
    using j1 by (simp add: getOrderById_def await_def g a drop_Suc)
qed

lemma getOrderById_Inr:
  assumes "getOrderById oid w = (Inr order, w')"
  shows "order = read_order oid (cur (db w)) \<and> db w' = db w \<and> same_hub w w'"
proof (cases "fault_at (faults w) 0")
  case True
  then have "get_order oid w = (Inl IoFault, w\<lparr> faults := tl (faults w) \<rparr>)"
    by (simp add: get_order_def storage_call_fault)
  with assms show ?thesis by (simp add: getOrderById_def await_def)
next
  case False
  note g = get_order_ok [OF False, of oid]
  show ?thesis
  proof (cases "select_order oid (cur (db w))")
    case None
    with assms g show ?thesis
      by (auto simp: getOrderById_def await_def read_order_def same_hub_def)
  next
    case (Some row)
    let ?w1 = "w\<lparr> faults := tl (faults w) \<rparr>"
    show ?thesis
    proof (cases "fault_at (faults ?w1) 0")
      case True
      then have "all_items oid ?w1 = (Inl IoFault, ?w1\<lparr> faults := tl (faults ?w1) \<rparr>)"
        unfolding all_items_def by (rule storage_call_fault)
      with assms g Some show ?thesis by (simp add: getOrderById_def await_def)
    next
      case False
      note a = all_items_ok [OF False, of oid]
      from assms g Some a show ?thesis
        by (auto simp: getOrderById_def await_def read_order_def same_hub_def)
    qed
  qed
qed

lemma select_order_with_order:
  "select_order (Suc (seq_orders t)) (with_order cn tn nt tot now items t) \<noteq> None"
proof -
  have "new_order cn tn nt tot now t \<in> set (orders (with_order cn tn nt tot now items t))"
    by (simp add: with_order_def)
  moreover have "o_id (new_order cn tn nt tot now t) = Suc (seq_orders t)"
    by (simp add: new_order_def)
  ultimately show ?thesis
    unfolding select_order_def find_None_iff by blast
qed

lemma no_fault_mono: "True \<notin> set (take j fs) \<Longrightarrow> i \<le> j \<Longrightarrow> True \<notin> set (take i fs)"
  by (meson set_take_subset_set_take subsetD)

lemma no_fault_drop: "True \<notin> set (take (n + k) fs) \<Longrightarrow> True \<notin> set (take k (drop n fs))"
  unfolding take_add by simp

section \<open>Successful mutations\<close>

lemma first_fault:
  "True \<in> set (take m fs) \<Longrightarrow> \<exists>j<m. True \<notin> set (take j fs) \<and> fault_at fs j"
proof (induction m)
  case 0
  then show ?case by simp
next
  case (Suc m)
  show ?case
  proof (cases "True \<in> set (take m fs)")
    case True
    with Suc.IH obtain j where "j < m" "True \<notin> set (take j fs)" "fault_at fs j" by blast
    then show ?thesis by (intro exI [of _ j]) simp
  next
    case False
    have lt: "m < length fs"
    proof (rule ccontr)
      assume "\<not> m < length fs"
      then have "take (Suc m) fs = take m fs" by simp
      with Suc.prems False show False by simp
    qed
    then have "take (Suc m) fs = take m fs @ [fs ! m]" by (rule take_Suc_conv_app_nth)
    with Suc.prems False have "fs ! m" by simp
    with lt have "fault_at fs m" by (simp add: fault_at_def)
    with False show ?thesis by (intro exI [of _ m]) simp
  qed
qed

lemma run_begin_busy: "saved (db w) \<noteq> None \<Longrightarrow> \<exists>e w1. run Begin w = (Inl e, w1)"
  by (cases "fault_at (faults w) 0") (simp_all add: run_def storage_call_fault storage_call_ok)

lemma create_try_Inr_inputs:
  assumes "create_try now cn tn nt tot items w = (Inr oid, w')"
  shows "saved (db w) = None \<and> True \<notin> set (take (length items + 3) (faults w))"
proof -
  have idle: "saved (db w) = None"
  proof (rule ccontr)
    assume "saved (db w) \<noteq> None"
    then obtain e w1 where "run Begin w = (Inl e, w1)" using run_begin_busy by blast
    then have "create_try now cn tn nt tot items w = (Inl e, w1)"
      by (simp add: create_try_def await_def)
    with assms show False by simp
  qed
  have "True \<notin> set (take (length items + 3) (faults w))"
  proof
    assume "True \<in> set (take (length items + 3) (faults w))"
    then obtain j where j: "j < length items + 3" "True \<notin> set (take j (faults w))" "fault_at (faults w) j"
      using first_fault by blast
    show False
    proof (cases j)
      case 0
      with j(3) have "run Begin w = (Inl IoFault, w\<lparr> faults := tl (faults w) \<rparr>)"
        by (simp add: run_fault)
      then have "create_try now cn tn nt tot items w = (Inl IoFault, w\<lparr> faults := tl (faults w) \<rparr>)"
        by (simp add: create_try_def await_def)
      with assms show False by simp
    next
      case (Suc j')
      then have lo: "1 \<le> j" by simp
      from j(1) have hi: "j \<le> length items + 2" by simp
      from create_try_fault [OF idle j(2) j(3) lo hi, of now cn tn nt tot] assms
      show False by auto
    qed
  qed
  with idle show ?thesis by simp
qed

lemma create_try_success:
  assumes "create_try now cn tn nt tot items w = (Inr oid, w')"
  shows "oid = Suc (seq_orders (cur (db w))) \<and>
         db w' = \<lparr> cur = with_order cn tn nt tot now items (cur (db w)), saved = None \<rparr> \<and>
         published w'
           = published w @ [(''order'', OrderCreated (read_order oid
                                (with_order cn tn nt tot now items (cur (db w)))))]"
proof -
  let ?oid = "Suc (seq_orders (cur (db w)))"
  let ?wC = "w\<lparr> faults := drop (length items + 3) (faults w),
                db := \<lparr> cur = with_order cn tn nt tot now items (cur (db w)), saved = None \<rparr> \<rparr>"
  from create_try_Inr_inputs [OF assms] have idle: "saved (db w) = None"
    and ok: "True \<notin> set (take (length items + 3) (faults w))" by simp_all
  note committed = create_try_committed [OF idle ok, of now cn tn nt tot]
  obtain x w5 where g: "getOrderById ?oid ?wC = (x, w5)" by (cases "getOrderById ?oid ?wC")
  show ?thesis
  proof (cases x)
    case (Inl e)
    with assms committed g show ?thesis by (simp add: await_def)
  next
    case (Inr order)
    with assms committed g have oid: "oid = ?oid"
      and w': "w' = broadcast ''order'' (OrderCreated order) now w5"
      by (simp_all add: await_def)
    from getOrderById_Inr [of ?oid ?wC order w5] g Inr
    have ord: "order = read_order ?oid (cur (db ?wC))" and d: "db w5 = db ?wC"
      and h: "same_hub ?wC w5" by simp_all
    have "db w' = db ?wC" unfolding w' broadcast_frame d ..
    moreover have "published w' = published w @ [(''order'', OrderCreated order)]"
      unfolding w' broadcast_frame using h by (simp add: same_hub_def)
    ultimately show ?thesis using oid ord by simp
  qed
qed

lemma read_order_shape:
  assumes "read_order oid t = Some (row, its)"
  shows "o_id row = oid \<and> sorted (map fst its)"
proof -
  from assms have f: "select_order oid t = Some row" and i: "its = select_items oid t"
    by (auto simp: read_order_def)
  from f have "o_id row = oid" by (auto simp: select_order_def find_Some_iff)
  moreover have "map fst (select_items oid t)
      = map i_id (sort_key i_id (filter (\<lambda>r. order_id r = oid) (order_items t)))"
    by (simp add: select_items_def comp_def)
  then have "sorted (map fst its)" unfolding i by simp
  ultimately show ?thesis by simp
qed

lemma find_snoc_fresh:
  "\<forall>x\<in>set xs. \<not> P x \<Longrightarrow> P y \<Longrightarrow> find P (xs @ [y]) = Some y"
  by (induction xs) auto

lemma item_rows_ids: "map i_id (item_rows oid base items) = [Suc base ..< Suc base + length items]"
proof -
  have "map i_id (item_rows oid base items) = map fst (enumerate (Suc base) items)"
    by (simp add: item_rows_def comp_def case_prod_unfold)
  then show ?thesis by simp
qed

lemma item_rows_view: "map (\<lambda>r. (i_id r, cols r)) (item_rows oid base items) = enumerate (Suc base) items"
  by (simp add: item_rows_def comp_def case_prod_unfold)

lemma item_rows_owner: "\<forall>r\<in>set (item_rows oid base items). order_id r = oid"
  by (auto simp: item_rows_def)

lemma read_order_with_order:
  assumes "store_ok t"
  shows "read_order (Suc (seq_orders t)) (with_order cn tn nt tot now items t)
         = Some (new_order cn tn nt tot now t, enumerate (Suc (seq_items t)) items)"
proof -
  let ?oid = "Suc (seq_orders t)"
  let ?t' = "with_order cn tn nt tot now items t"
  from assms have old_orders: "\<forall>r\<in>set (orders t). \<not> o_id r = ?oid"
    and old_items: "\<forall>r\<in>set (order_items t). \<not> order_id r = ?oid"
    by (auto simp: store_ok_def)
  have "select_order ?oid ?t' = find (\<lambda>r. o_id r = ?oid) (orders t @ [new_order cn tn nt tot now t])"
    by (simp add: select_order_def with_order_def)
  also have "\<dots> = Some (new_order cn tn nt tot now t)"
    using old_orders by (rule find_snoc_fresh) (simp add: new_order_def)
  finally have so: "select_order ?oid ?t' = Some (new_order cn tn nt tot now t)" .
  have "filter (\<lambda>r. order_id r = ?oid) (order_items ?t') = item_rows ?oid (seq_items t) items"
    using old_items item_rows_owner [of ?oid "seq_items t" items]
    by (simp add: with_order_def)
  moreover have "sort_key i_id (item_rows ?oid (seq_items t) items) = item_rows ?oid (seq_items t) items"
    by (rule sort_key_id_if_sorted) (simp only: item_rows_ids sorted_upt)
  ultimately have "select_items ?oid ?t' = enumerate (Suc (seq_items t)) items"
    by (simp add: select_items_def item_rows_view)
  with so show ?thesis by (simp add: read_order_def)
qed

lemma run_Inr:
  assumes "run st w = (Inr r, w1)"
  shows "exec st (db w) = Inr (r, db w1) \<and> same_hub w w1"
proof (cases "fault_at (faults w) 0")
  case True
  with assms show ?thesis by (simp add: run_fault)
next
  case False
  with assms show ?thesis
    by (auto simp: run_def storage_call_ok same_hub_def split: sum.splits prod.splits)
qed

lemma find_updated:
  "find (\<lambda>r. o_id r = oid)
        (map (\<lambda>r. if o_id r = oid then r\<lparr> status := st, updated_at := now \<rparr> else r) rows)
   = map_option (\<lambda>r. r\<lparr> status := st, updated_at := now \<rparr>) (find (\<lambda>r. o_id r = oid) rows)"
  by (induction rows) auto

lemma update_try_order:
  assumes "update_try now st oid w = (Inr (ReplyOrder c m ord), w')"
  shows "published w' = published w @ [(''order'', OrderUpdated ord)] \<and>
         ord = read_order oid (cur (db w')) \<and>
         (\<exists>row its. ord = Some (row, its) \<and> o_id row = oid \<and> status row = st \<and> sorted (map fst its))"
proof -
  obtain x w1 where r: "run (UpdateStatus st now oid) w = (x, w1)"
    by (cases "run (UpdateStatus st now oid) w")
  show ?thesis
  proof (cases x)
    case (Inl e)
    with assms r show ?thesis by (simp add: update_try_def await_def)
  next
    case (Inr result)
    from run_Inr [of "UpdateStatus st now oid" w result w1] r Inr
    have ex: "exec (UpdateStatus st now oid) (db w) = Inr (result, db w1)" and h1: "same_hub w w1"
      by simp_all
    show ?thesis
    proof (cases "changes result = 0")
      case True
      with assms r Inr show ?thesis by (simp add: update_try_def await_def)
    next
      case False
      obtain y w2 where g: "getOrderById oid w1 = (y, w2)" by (cases "getOrderById oid w1")
      show ?thesis
      proof (cases y)
        case (Inl e)
        with assms r Inr False g show ?thesis by (simp add: update_try_def await_def)
      next
        case (Inr order)
        with assms r \<open>x = Inr result\<close> False g have o: "ord = order"
          and w': "w' = broadcast ''order'' (OrderUpdated order) now w2"
          by (auto simp: update_try_def await_def)
        from getOrderById_Inr [of oid w1 order w2] g Inr
        have rd: "order = read_order oid (cur (db w1))" and d: "db w2 = db w1"
          and h2: "same_hub w1 w2" by simp_all
        have dw: "db w' = db w1" unfolding w' broadcast_frame d ..
        have pub: "published w' = published w @ [(''order'', OrderUpdated ord)]"
          unfolding w' broadcast_frame o using h1 h2 by (simp add: same_hub_def)
        from ex have ch: "changes result = length (filter (\<lambda>r. o_id r = oid) (orders (cur (db w))))"
          and dw1: "db w1 = (db w)\<lparr> cur := (cur (db w))\<lparr> orders :=
                   map (\<lambda>r. if o_id r = oid then r\<lparr> status := st, updated_at := now \<rparr> else r)
                       (orders (cur (db w))) \<rparr> \<rparr>"
          by (auto simp: Let_def)
        have t1: "orders (cur (db w1))
                 = map (\<lambda>r. if o_id r = oid then r\<lparr> status := st, updated_at := now \<rparr> else r)
                       (orders (cur (db w)))"
          by (simp add: dw1)
        from False ch have "filter (\<lambda>r. o_id r = oid) (orders (cur (db w))) \<noteq> []" by auto
        then have "find (\<lambda>r. o_id r = oid) (orders (cur (db w))) \<noteq> None"
          by (auto simp: find_None_iff filter_empty_conv)
        then obtain r0 where r0: "find (\<lambda>r. o_id r = oid) (orders (cur (db w))) = Some r0" by blast
        have so: "select_order oid (cur (db w1)) = Some (r0\<lparr> status := st, updated_at := now \<rparr>)"
          by (simp add: select_order_def t1 find_updated r0)
        then have full: "read_order oid (cur (db w1))
            = Some (r0\<lparr> status := st, updated_at := now \<rparr>, select_items oid (cur (db w1)))"
          by (simp add: read_order_def)
        from read_order_shape [OF full]
        have "o_id (r0\<lparr> status := st, updated_at := now \<rparr>) = oid"
          and "sorted (map fst (select_items oid (cur (db w1))))" by simp_all
        then have "\<exists>row its. ord = Some (row, its) \<and> o_id row = oid \<and> status row = st \<and> sorted (map fst its)"
          using o rd full by simp
        with pub o rd dw show ?thesis by simp
      qed
    qed
  qed
qed

lemma updateStatus_order:
  assumes "updateStatus B now authorization id_param body w = (ReplyOrder c m ord, w')"
  shows "\<exists>txt. sanitizeText B (guarded body ''status'') 40 = Inr txt \<and>
           toLowerCase B txt \<in> set ORDER_STATUSES \<and>
           update_try now (toStoredText B (toLowerCase B txt)) (row_id (stringToNumber B id_param))
             (w\<lparr> sessions := snd (getSession (bearer_token authorization) now (sessions w)) \<rparr>)
           = (Inr (ReplyOrder c m ord), w')"
  using assms
  by (auto simp: updateStatus_def authMiddleware_def Let_def
           split: prod.splits option.splits if_splits sum.splits)

section \<open>Validation of the request body\<close>

text \<open>
  When the three text fields of the body convert to strings, an item list that normalizes to
  empty (an empty array, an array of items without a name, or anything that is not an array)
  is answered with 400 and changes nothing.
\<close>

lemma createOrder_no_items:
  assumes "read_body B body = Inr (cn, tn, nt, [])"
  shows "createOrder B now body w = (Reply 400 NoItems, w)"
  using assms by (simp add: createOrder_def)

lemma read_body_items:
  assumes "read_body B body = Inr (cn, tn, nt, items)"
  shows "normalizeItems B (guarded body ''items'') = Inr items"
  using assms by (auto simp: read_body_def and_then_def Let_def split: sum.splits if_splits)

lemma createOrder_items_not_array:
  assumes "read_body B body = Inr (cn, tn, nt, items)"
    and "\<not> isArray (guarded body ''items'')"
  shows "createOrder B now body w = (Reply 400 NoItems, w)"
proof -
  from assms(2) have "normalizeItems B (guarded body ''items'') = Inr []"
    by (simp add: normalizeItems_def)
  with read_body_items [OF assms(1)] have "items = []" by simp
  with assms(1) show ?thesis by (simp add: createOrder_no_items)
qed

text \<open>A state is only changed by a request whose body converts and has items.\<close>

lemma createOrder_threw_or_empty:
  assumes "read_body B body = Inl e \<or> normalizeItems B (guarded body ''items'') = Inr []"
  shows "snd (createOrder B now body w) = w"
proof (cases "read_body B body")
  case (Inl e)
  then show ?thesis by (simp add: createOrder_def)
next
  case (Inr r)
  obtain cn tn nt items where r: "r = (cn, tn, nt, items)" by (cases r) auto
  from assms Inr r read_body_items [of B body cn tn nt items] have "items = []" by auto
  with Inr r show ?thesis by (simp add: createOrder_no_items)
qed

lemma example_parsed:
  "read_body example_builtins example_body
     = Inr (utf16 ''Nid'', utf16 ''T3'', utf16 ''no chili'', example_items)"
  by code_simp

section \<open>The interval callback\<close>

lemma sweep_lookup:
  "map_of (fold (\<lambda>(key, val) m. if expiresAt val < now then AList.delete key m else m) xs m) k = None \<or>
   map_of (fold (\<lambda>(key, val) m. if expiresAt val < now then AList.delete key m else m) xs m) k = map_of m k"
proof (induction xs arbitrary: m)
  case Nil
  show ?case by simp
next
  case (Cons x xs)
  obtain key val where x: "x = (key, val)" by (cases x)
  show ?case
  proof (cases "expiresAt val < now")
    case True
    from Cons.IH [of "AList.delete key m"] True x show ?thesis
      by (auto simp: delete_conv split: if_splits)
  next
    case False
    from Cons.IH [of m] False x show ?thesis by simp
  qed
qed

lemma sweep_keeps_invalid:
  assumes "fst (getSession tok t ss) = None"
  shows "fst (getSession tok t (sweep now ss)) = None"
proof -
  from sweep_lookup [of now ss ss tok]
  have "map_of (sweep now ss) tok = None \<or> map_of (sweep now ss) tok = map_of ss tok"
    by (simp add: sweep_def)
  then show ?thesis
  proof
    assume "map_of (sweep now ss) tok = None"
    then show ?thesis by (simp add: getSession_def)
  next
    assume "map_of (sweep now ss) tok = map_of ss tok"
    with assms show ?thesis
      by (auto simp: getSession_def split: option.splits if_splits)
  qed
qed

lemma stale_invalid:
  "(case map_of ss tok of None \<Rightarrow> True | Some s \<Rightarrow> expiresAt s < t)
   \<longleftrightarrow> fst (getSession tok t ss) = None"
  by (auto simp: getSession_def split: option.splits)

lemma getSession_filter:
  assumes "distinct (map fst ss)"
  shows "snd (getSession tok t ss) = filter (\<lambda>(k, s). \<not> (k = tok \<and> expiresAt s < t)) ss"
proof (cases "map_of ss tok")
  case None
  then have "tok \<notin> fst ` set ss" by (simp add: map_of_eq_None_iff)
  then have "filter (\<lambda>(k, s). \<not> (k = tok \<and> expiresAt s < t)) ss = ss"
    by (intro filter_True) force
  with None show ?thesis by (simp add: getSession_def)
next
  case (Some s)
  then have mem: "(tok, s) \<in> set ss" by (rule map_of_SomeD)
  have uniq: "s' = s" if "(tok, s') \<in> set ss" for s'
    using assms mem that by (meson eq_key_imp_eq_value)
  show ?thesis
  proof (cases "expiresAt s < t")
    case True
    have "filter (\<lambda>(k, _). tok \<noteq> k) ss = filter (\<lambda>(k, s). \<not> (k = tok \<and> expiresAt s < t)) ss"
      by (rule filter_cong) (use True uniq in auto)
    with Some True show ?thesis by (simp add: getSession_def AList.delete_eq)
  next
    case False
    have "filter (\<lambda>(k, s). \<not> (k = tok \<and> expiresAt s < t)) ss = ss"
      by (intro filter_True) (use False uniq in auto)
    with Some False show ?thesis by (simp add: getSession_def)
  qed
qed

lemma fold_visit_sessions:
  assumes "distinct (map fst (sessions w))"
  shows "sessions (fold (visit e p t) cs w)
         = filter (\<lambda>(k, s). \<not> (k \<in> c_token ` set cs \<and> expiresAt s < t)) (sessions w)"
  using assms
proof (induction cs arbitrary: w)
  case Nil
  show ?case by simp
next
  case (Cons c cs)
  let ?w1 = "visit e p t c w"
  have s1: "sessions ?w1 = filter (\<lambda>(k, s). \<not> (k = c_token c \<and> expiresAt s < t)) (sessions w)"
    using Cons.prems by (simp add: visit_sessions getSession_filter)
  then have "distinct (map fst (sessions ?w1))"
    using Cons.prems by (simp add: distinct_map_filter)
  from Cons.IH [OF this]
  have "sessions (fold (visit e p t) (c # cs) w)
        = filter (\<lambda>(k, s). \<not> (k \<in> c_token ` set cs \<and> expiresAt s < t)) (sessions ?w1)"
    by simp
  also have "\<dots> = filter (\<lambda>(k, s). \<not> (k \<in> c_token ` set (c # cs) \<and> expiresAt s < t)) (sessions w)"
    unfolding s1 filter_filter by (rule filter_cong) auto
  finally show ?case .
qed

lemma heartbeat_sessions:
  assumes "distinct (map fst (sessions w))"
  shows "sessions (heartbeat now now' w)
         = filter (\<lambda>(k, s). \<not> (k \<in> c_token ` set (sseClients w) \<and> expiresAt s < now'))
             (filter (\<lambda>(k, s). \<not> expiresAt s < now) (sessions w))"
proof -
  have sw: "sweep now (sessions w) = filter (\<lambda>(k, s). \<not> expiresAt s < now) (sessions w)"
    using assms by (simp add: sweep_filter not_less)
  have "distinct (map fst (sweep now (sessions w)))"
    unfolding sw using assms by (simp add: distinct_map_filter)
  then show ?thesis
    by (simp add: heartbeat_def broadcast_def fold_visit_sessions sw)
qed

lemma broadcast_drops:
  assumes live: "c \<in> set (sseClients w)"
    and invalid: "fst (getSession (c_token c) now (sessions w)) = None"
    and conns: "distinct (map res (sseClients w))"
  shows "c \<notin> set (sseClients (broadcast event pl now w)) \<and>
         (\<exists>more. wire (broadcast event pl now w) = wire w @ more \<and>
                 End (res c) \<in> set more \<and> (\<forall>ch. Write (res c) ch \<notin> set more))"
proof -
  let ?w0 = "w\<lparr> published := published w @ [(event, pl)] \<rparr>"
  have "c \<notin> set (sseClients (fold (visit event pl now) (sseClients w) ?w0)) \<and>
         (\<exists>more. wire (fold (visit event pl now) (sseClients w) ?w0) = wire ?w0 @ more \<and>
                 End (res c) \<in> set more \<and> (\<forall>ch. Write (res c) ch \<notin> set more))"
    by (rule fold_visit_prunes) (use live invalid conns in simp_all)
  then show ?thesis by (simp add: broadcast_def)
qed

lemma heartbeat_drops:
  assumes live: "c \<in> set (sseClients w)"
    and invalid: "fst (getSession (c_token c) t (sessions w)) = None"
    and conns: "distinct (map res (sseClients w))"
  shows "c \<notin> set (sseClients (heartbeat now t w)) \<and>
         (\<exists>more. wire (heartbeat now t w) = wire w @ more \<and>
                 End (res c) \<in> set more \<and> (\<forall>ch. Write (res c) ch \<notin> set more))"
proof -
  let ?w1 = "w\<lparr> sessions := sweep now (sessions w) \<rparr>"
  have "c \<in> set (sseClients ?w1)" using live by simp
  moreover have "fst (getSession (c_token c) t (sessions ?w1)) = None"
    using invalid by (simp add: sweep_keeps_invalid)
  moreover have "distinct (map res (sseClients ?w1))" using conns by simp
  ultimately have "c \<notin> set (sseClients (broadcast ''ping'' (Ping now) t ?w1)) \<and>
         (\<exists>more. wire (broadcast ''ping'' (Ping now) t ?w1) = wire ?w1 @ more \<and>
                 End (res c) \<in> set more \<and> (\<forall>ch. Write (res c) ch \<notin> set more))"
    by (rule broadcast_drops)
  then show ?thesis by (simp add: heartbeat_def)
qed

lemma dropped_stays_quiet:
  assumes live: "c \<in> set (sseClients w)" and conns: "distinct (map res (sseClients w))"
    and step: "hub_step w w'" and gone: "c \<notin> set (sseClients w')"
    and closed: "\<forall>call\<in>set calls. stream_of call \<noteq> Some (res c)"
  shows "\<exists>later. wire (fold (step B) calls w') = wire w' @ later \<and> (\<forall>ch. Write (res c) ch \<notin> set later)"
proof -
  from step have sub: "set (sseClients w') \<subseteq> set (sseClients w)" by (simp add: hub_step_def)
  have "res c \<notin> res ` set (sseClients w')"
  proof
    assume "res c \<in> res ` set (sseClients w')"
    then obtain c' where c': "c' \<in> set (sseClients w')" "res c' = res c" by auto
    with sub have "c' \<in> set (sseClients w)" by auto
    with live conns c'(2) have "c' = c" by (simp add: distinct_map inj_on_def)
    with c'(1) gone show False by simp
  qed
  then have "quiet (res c) w' (fold (step B) calls w')" using closed by (rule run_quiet)
  then show ?thesis by (simp add: quiet_def)
qed

section \<open>Claims\<close>

text \<open>
  Claim C3, as amended. For a token that has a stored session, \<open>getSession\<close> returns absent
  exactly when \<open>expiresAt < now\<close>, and then the entry is deleted; when \<open>now \<le> expiresAt\<close>,
  the boundary \<open>now = expiresAt\<close> included, it returns the stored session and leaves the map
  unchanged.
\<close>

theorem getSession_expiry:
  assumes stored: "map_of ss tok = Some s"
  shows "(fst (getSession tok now ss) = None \<longleftrightarrow> expiresAt s < now) \<and>
         (expiresAt s < now \<longrightarrow> map_of (snd (getSession tok now ss)) tok = None) \<and>
         (now \<le> expiresAt s \<longrightarrow> getSession tok now ss = (Some s, ss))"
  using stored by (simp add: getSession_def delete_conv)

theorem getSession_expiry_witness:
  "getSession (utf16 ''t1'') 99 (snd (createSession (utf16 ''t1'') 1 (utf16 ''admin'') 50 []))
   = (Some \<lparr> adminId = 1, username = utf16 ''admin'', expiresAt = 50 + SESSION_TTL_MS \<rparr>,
      snd (createSession (utf16 ''t1'') 1 (utf16 ''admin'') 50 []))"
proof -
  have stored: "map_of (snd (createSession (utf16 ''t1'') 1 (utf16 ''admin'') 50 [])) (utf16 ''t1'')
        = Some \<lparr> adminId = 1, username = utf16 ''admin'', expiresAt = 50 + SESSION_TTL_MS \<rparr>"
    by (simp add: createSession_def)
  from getSession_expiry [OF stored, of 99] show ?thesis
    by (simp add: SESSION_TTL_MS_def)
qed

text \<open>
  Claim C3 as stated fails at the boundary: a session whose \<open>expiresAt\<close> is 100 is still
  returned, and kept, by a call at time 100.
\<close>

theorem getSession_boundary_counterexample:
  "getSession (utf16 ''t1'') 100 [(utf16 ''t1'', admin_session 100)]
   = (Some (admin_session 100), [(utf16 ''t1'', admin_session 100)])"
  by (simp add: getSession_def admin_session_def)

text \<open>
  Claim C8, as amended. A run of the sweep over the session map (one entry per token) deletes
  exactly the entries with \<open>expiresAt < now\<close>: every entry with \<open>expiresAt \<ge> now\<close>, the
  ones with \<open>expiresAt = now\<close> included, is kept, in its place. The ping that the interval
  callback broadcasts next reads the clock again; of what the sweep kept it deletes exactly
  the sessions of live subscribers that are stale at that later reading.
\<close>

theorem sweep_removes_stale:
  assumes "distinct (map fst (sessions w))"
  shows "sweep now (sessions w) = filter (\<lambda>(tok, s). \<not> expiresAt s < now) (sessions w) \<and>
         sessions (heartbeat now now' w)
           = filter (\<lambda>(tok, s). \<not> (tok \<in> c_token ` set (sseClients w) \<and> expiresAt s < now'))
               (filter (\<lambda>(tok, s). \<not> expiresAt s < now) (sessions w))"
  using assms by (simp add: heartbeat_sessions sweep_filter not_less)

theorem sweep_removes_stale_witness:
  "sweep 100 (sessions boundary_world)
     = [(utf16 ''b'', admin_session 100), (utf16 ''c'', admin_session 101)] \<and>
   sessions (heartbeat 100 100 boundary_world)
     = [(utf16 ''b'', admin_session 100), (utf16 ''c'', admin_session 101)] \<and>
   sessions (heartbeat 100 101 boundary_world) = [(utf16 ''c'', admin_session 101)]"
proof -
  have d: "distinct (map fst (sessions boundary_world))"
    by (simp add: boundary_world_def empty_world_def utf16_def)
  have f: "filter (\<lambda>(tok, s). \<not> expiresAt s < 100) (sessions boundary_world)
        = [(utf16 ''b'', admin_session 100), (utf16 ''c'', admin_session 101)]"
    by (simp add: boundary_world_def empty_world_def admin_session_def)
  have c: "c_token ` set (sseClients boundary_world) = {utf16 ''b''}"
    by (simp add: boundary_world_def empty_world_def)
  have g: "utf16 ''c'' \<noteq> utf16 ''b''" by (simp add: utf16_def)
  from sweep_removes_stale [OF d, of 100 100] sweep_removes_stale [OF d, of 100 101]
  show ?thesis
    unfolding f c using g by (simp add: admin_session_def)
qed

text \<open>
  Claim C8 as stated fails at the boundary: the sweep at time 100 keeps an entry whose
  \<open>expiresAt\<close> is 100.
\<close>

theorem sweep_boundary_counterexample:
  "sweep 100 [(utf16 ''b'', admin_session 100)] = [(utf16 ''b'', admin_session 100)]"
  by (simp add: sweep_def admin_session_def)

text \<open>
  Claim C5 at an input where the code departs from it. In the body
  \<open>{"customerName":{"toString":1},"items":[]}\<close> the item list normalizes to empty, but
  \<open>String()\<close> of the customer name throws a \<open>TypeError\<close> in the first statement of the
  handler, before the empty check: the handler is left by the exception and no 400 is sent.
  The state stays as it was. (For a body whose three text fields convert, the claim holds:
  \<open>createOrder_no_items\<close>.)
\<close>

theorem createOrder_throws_before_empty_check:
  "normalizeItems B (guarded hostile_body ''items'') = Inr [] \<and>
   createOrder B now hostile_body w = (Threw, w)"
  by (simp add: hostile_body_def normalizeItems_def createOrder_def read_body_def sanitizeText_def
        guarded_def member_def and_then_def utf16_def)

text \<open>
  Claim C10 at an input where the code departs from it. The body
  \<open>{"customerName":{"toString":1}}\<close> has no \<open>items\<close> field, so normalization yields the
  empty list; but the handler is left by the \<open>TypeError\<close> of its first statement, while
  the empty array in an otherwise empty body is answered with 400. (For a body whose three
  text fields convert, the claim holds: \<open>createOrder_items_not_array\<close>.)
\<close>

theorem createOrder_throws_without_items_field:
  "\<not> isArray (guarded hostile_body_no_items ''items'') \<and>
   normalizeItems B (guarded hostile_body_no_items ''items'') = Inr [] \<and>
   createOrder B now hostile_body_no_items w = (Threw, w) \<and>
   createOrder B now (JObj [(utf16 ''items'', JArr [])]) w = (Reply 400 NoItems, w)"
  by (simp add: hostile_body_no_items_def normalizeItems_def createOrder_def read_body_def
        sanitizeText_def guarded_def member_def and_then_def utf16_def trim_def)

text \<open>
  Claim C4 at the input where the code departs from it. The body
  \<open>{"items":[{"name":"Tea","price":1e999,"qty":1}]}\<close> parses to a price of \<open>Infinity\<close>;
  the item survives normalization with price \<open>Infinity\<close>, and the order total is
  \<open>Infinity\<close>: neither is an integer. Of the rest of the claim, \<open>normalizeItems_bounds\<close>
  gives what holds of every normalized item: its name is non-empty and at most 120 code
  units, its quantity is an integer from 1 to 99, and its price is a non-negative integer
  unless it is infinite.
\<close>

theorem normalizeItems_infinite_price:
  "normalizeItems B (JArr [JObj [(utf16 ''name'', JStr (utf16 ''Tea'')), (utf16 ''price'', JNum PInf),
                                 (utf16 ''qty'', JNum (Fin 1))]])
     = Inr [\<lparr> name = utf16 ''Tea'', price = PInf, qty = Fin 1, image_url = [] \<rparr>] \<and>
   order_total B [\<lparr> name = utf16 ''Tea'', price = PInf, qty = Fin 1, image_url = [] \<rparr>] = PInf"
  by (simp add: normalizeItems_def normalize_item_def guarded_def member_def sanitizeText_def
      trim_def is_space_def utf16_def num_or_def num_truthy_def order_total_def and_then_def)




text \<open>
  Claim C6, as amended. Let a subscriber of the live set (one subscriber per connection)
  have a token whose session has been deleted or has \<open>expiresAt\<close> before the time \<open>t\<close>
  that \<open>getSession\<close> reads during the call. Then a \<open>broadcast\<close> of any event, and likewise a run of the interval callback with its
  ping, prunes it: after the call the subscriber is out of the live set, its connection was
  ended, and nothing was written to it; and in every later run of the server, as long as no
  new stream is opened on that same connection, nothing is ever written to it.
\<close>

theorem broadcast_prunes_invalid:
  assumes live: "c \<in> set (sseClients w)"
    and stale: "case map_of (sessions w) (c_token c) of None \<Rightarrow> True | Some s \<Rightarrow> expiresAt s < t"
    and conns: "distinct (map res (sseClients w))"
  shows "pruned B c w (broadcast event pl t w) \<and> pruned B c w (heartbeat now t w)"
proof -
  from stale have invalid: "fst (getSession (c_token c) t (sessions w)) = None"
    by (simp add: stale_invalid)
  note b = broadcast_drops [OF live invalid conns, of event pl]
  note h = heartbeat_drops [OF live invalid conns, of now]
  have qb: "\<exists>later. wire (fold (step B) calls (broadcast event pl t w)) = wire (broadcast event pl t w) @ later \<and>
                    (\<forall>ch. Write (res c) ch \<notin> set later)"
    if "\<forall>call\<in>set calls. stream_of call \<noteq> Some (res c)" for calls
    using live conns hub_step_broadcast _ that by (rule dropped_stays_quiet) (use b in blast)
  have qh: "\<exists>later. wire (fold (step B) calls (heartbeat now t w)) = wire (heartbeat now t w) @ later \<and>
                    (\<forall>ch. Write (res c) ch \<notin> set later)"
    if "\<forall>call\<in>set calls. stream_of call \<noteq> Some (res c)" for calls
    using live conns hub_step_heartbeat _ that by (rule dropped_stays_quiet) (use h in blast)
  from b h qb qh show ?thesis unfolding pruned_def by blast
qed

theorem broadcast_prunes_invalid_witness:
  "sseClients (broadcast ''order'' (OrderCreated None) 100 hub_world) = [live_client] \<and>
   wire (broadcast ''order'' (OrderCreated None) 100 hub_world)
     = [End 7, Write 8 (EventLine ''order''), Write 8 (DataLine (OrderCreated None))] \<and>
   sseClients (heartbeat 100 100 hub_world) = [live_client] \<and>
   wire (heartbeat 100 100 hub_world)
     = [End 7, Write 8 (EventLine ''ping''), Write 8 (DataLine (Ping 100))] \<and>
   pruned example_builtins stale_client hub_world (heartbeat 100 100 hub_world)"
proof -
  have live: "stale_client \<in> set (sseClients hub_world)"
    by (simp add: hub_world_def empty_world_def)
  have stale: "case map_of (sessions hub_world) (c_token stale_client) of
                 None \<Rightarrow> True | Some s \<Rightarrow> expiresAt s < 100"
    by (simp add: hub_world_def empty_world_def stale_client_def admin_session_def)
  have conns: "distinct (map res (sseClients hub_world))"
    by (simp add: hub_world_def empty_world_def stale_client_def live_client_def)
  note inst = broadcast_prunes_invalid [OF live stale conns,
                of example_builtins "''order''" "OrderCreated None" 100]
  have "sseClients (broadcast ''order'' (OrderCreated None) 100 hub_world) = [live_client]"
    by code_simp
  moreover have "wire (broadcast ''order'' (OrderCreated None) 100 hub_world)
     = [End 7, Write 8 (EventLine ''order''), Write 8 (DataLine (OrderCreated None))]"
    by code_simp
  moreover have "sseClients (heartbeat 100 100 hub_world) = [live_client]"
    by code_simp
  moreover have "wire (heartbeat 100 100 hub_world)
     = [End 7, Write 8 (EventLine ''ping''), Write 8 (DataLine (Ping 100))]"
    by code_simp
  ultimately show ?thesis using inst by simp
qed

text \<open>
  Claim C6 as stated, with a session counted as expired from \<open>now = expiresAt\<close> on, fails at
  that instant: at time 99 the subscriber whose session has \<open>expiresAt = 99\<close> stays in the
  live set and the event is written to its connection.
\<close>

theorem broadcast_boundary_counterexample:
  "map_of (sessions hub_world) (c_token stale_client) = Some (admin_session 99) \<and>
   stale_client \<in> set (sseClients (broadcast ''order'' (OrderCreated None) 99 hub_world)) \<and>
   Write 7 (DataLine (OrderCreated None))
     \<in> set (wire (broadcast ''order'' (OrderCreated None) 99 hub_world)) \<and>
   End 7 \<notin> set (wire (broadcast ''order'' (OrderCreated None) 99 hub_world))"
  by code_simp

text \<open>
  Claim C9. There are executions of \<open>createOrder\<close> that answer 500 although the order is
  stored: whenever every storage call up to and including the \<open>COMMIT\<close> succeeds and one of
  the two queries of the re-read fails, the answer is 500, nothing is broadcast, no
  transaction is open, and the order row and all its item rows are in the store.
\<close>

theorem createOrder_commit_then_read_failure:
  assumes idle: "saved (db w) = None"
    and parsed: "read_body B body = Inr (cn, tn, nt, items)"
    and nonempty: "items \<noteq> []"
    and j: "j = length items + 3 \<or> j = length items + 4"
    and before: "True \<notin> set (take j (faults w))"
    and at: "fault_at (faults w) j"
  shows "fst (createOrder B now body w) = Reply 500 SaveFailed \<and>
         same_hub w (snd (createOrder B now body w)) \<and>
         saved (db (snd (createOrder B now body w))) = None \<and>
         (\<exists>row. orders (cur (db (snd (createOrder B now body w)))) = orders (cur (db w)) @ [row] \<and>
                o_id row = Suc (seq_orders (cur (db w))) \<and>
                total row = order_total B items) \<and>
         order_items (cur (db (snd (createOrder B now body w))))
           = order_items (cur (db w))
             @ item_rows (Suc (seq_orders (cur (db w)))) (seq_items (cur (db w)))
                 (map (stored B) items)"
proof -
  let ?items = "map (stored B) items"
  let ?n = "length items"
  let ?cn = "toStoredText B cn"
  let ?tn = "toStoredText B tn"
  let ?nt = "toStoredText B nt"
  let ?tot = "order_total B items"
  let ?oid = "Suc (seq_orders (cur (db w)))"
  let ?t = "with_order ?cn ?tn ?nt ?tot now ?items (cur (db w))"
  let ?wC = "w\<lparr> faults := drop (?n + 3) (faults w), db := \<lparr> cur = ?t, saved = None \<rparr> \<rparr>"
  obtain k where k: "j = ?n + 3 + k" "k < 2" using j by auto
  have le: "?n + 3 \<le> j" unfolding k(1) by (rule le_add1)
  have ok: "True \<notin> set (take (?n + 3) (faults w))"
    using before le by (rule no_fault_mono)
  have committed: "create_try now ?cn ?tn ?nt ?tot ?items w =
        await (getOrderById ?oid)
          (\<lambda>order w'. (Inr ?oid, broadcast ''order'' (OrderCreated order) now w')) ?wC"
    by (rule create_try_committed [where items = "map (stored B) items", unfolded length_map, OF idle ok])
  have found: "select_order ?oid (cur (db ?wC)) \<noteq> None"
    by (simp add: select_order_with_order)
  have fC: "faults ?wC = drop (?n + 3) (faults w)" by simp
  have before': "True \<notin> set (take k (faults ?wC))"
    unfolding fC by (rule no_fault_drop) (use before in \<open>unfold k(1)\<close>)
  have at': "fault_at (faults ?wC) k"
    unfolding fC fault_at_drop using at unfolding k(1) .
  have rd: "getOrderById ?oid ?wC = (Inl IoFault, ?wC\<lparr> faults := drop (Suc k) (faults ?wC) \<rparr>)"
    using found k(2) before' at' by (rule getOrderById_fault)
  have tried: "create_try now ?cn ?tn ?nt ?tot ?items w
      = (Inl IoFault, ?wC\<lparr> faults := drop (Suc k) (faults ?wC) \<rparr>)"
    unfolding committed by (simp add: await_def rd)
  have res: "createOrder B now body w
      = (Reply 500 SaveFailed, snd (run Rollback (?wC\<lparr> faults := drop (Suc k) (faults ?wC) \<rparr>)))"
    using nonempty by (simp add: createOrder_unfold [OF parsed] tried)
  have "snd (run Rollback (?wC\<lparr> faults := drop (Suc k) (faults ?wC) \<rparr>))
      = ?wC\<lparr> faults := drop (Suc k) (faults ?wC) \<rparr>\<lparr> faults := tl (faults (?wC\<lparr> faults := drop (Suc k) (faults ?wC) \<rparr>)) \<rparr>"
    by (rule run_rollback_closed) simp
  with res have final: "createOrder B now body w
      = (Reply 500 SaveFailed, w\<lparr> faults := tl (drop (Suc k) (drop (?n + 3) (faults w))),
                                  db := \<lparr> cur = ?t, saved = None \<rparr> \<rparr>)"
    by simp
  show ?thesis
    unfolding final by (simp add: same_hub_def with_order_def new_order_def)
qed

theorem createOrder_commit_then_read_failure_witness:
  "fst (createOrder example_builtins 1000 example_body
          (empty_world\<lparr> faults := [False, False, False, False, False, True] \<rparr>)) = Reply 500 SaveFailed \<and>
   published (snd (createOrder example_builtins 1000 example_body
          (empty_world\<lparr> faults := [False, False, False, False, False, True] \<rparr>))) = [] \<and>
   map o_id (orders (cur (db (snd (createOrder example_builtins 1000 example_body
          (empty_world\<lparr> faults := [False, False, False, False, False, True] \<rparr>)))))) = [1] \<and>
   map i_id (order_items (cur (db (snd (createOrder example_builtins 1000 example_body
          (empty_world\<lparr> faults := [False, False, False, False, False, True] \<rparr>)))))) = [1, 2]"
proof -
  let ?w = "empty_world\<lparr> faults := [False, False, False, False, False, True] \<rparr>"
  have n: "length example_items = 2" by (simp add: example_items_def)
  have idle: "saved (db ?w) = None" by (simp add: empty_world_def)
  have nonempty: "example_items \<noteq> []" by (simp add: example_items_def)
  have j: "5 = length example_items + 3 \<or> 5 = length example_items + 4"
    using n by simp
  have before: "True \<notin> set (take 5 (faults ?w))" by (simp add: empty_world_def)
  have at: "fault_at (faults ?w) 5" by (simp add: fault_at_def empty_world_def)
  note inst = createOrder_commit_then_read_failure [OF idle example_parsed nonempty j before at, of 1000]
  from inst have r: "fst (createOrder example_builtins 1000 example_body ?w) = Reply 500 SaveFailed"
    and h: "same_hub ?w (snd (createOrder example_builtins 1000 example_body ?w))"
    and o: "\<exists>row. orders (cur (db (snd (createOrder example_builtins 1000 example_body ?w))))
               = orders (cur (db ?w)) @ [row] \<and> o_id row = Suc (seq_orders (cur (db ?w)))"
    and i: "order_items (cur (db (snd (createOrder example_builtins 1000 example_body ?w))))
           = order_items (cur (db ?w))
             @ item_rows (Suc (seq_orders (cur (db ?w)))) (seq_items (cur (db ?w)))
                 (map (stored example_builtins) example_items)"
    by blast+
  from h have p: "published (snd (createOrder example_builtins 1000 example_body ?w)) = []"
    by (simp add: same_hub_def empty_world_def)
  from o have o': "map o_id (orders (cur (db (snd (createOrder example_builtins 1000 example_body ?w))))) = [1]"
    by (auto simp: empty_world_def)
  have "map i_id (item_rows (Suc (seq_orders (cur (db ?w)))) (seq_items (cur (db ?w)))
                 (map (stored example_builtins) example_items)) = [1, 2]"
    using n by (simp add: item_rows_ids empty_world_def upt_rec)
  with i have i': "map i_id (order_items (cur (db (snd (createOrder example_builtins 1000 example_body ?w))))) = [1, 2]"
    by (simp add: empty_world_def)
  from r p o' i' show ?thesis by simp
qed

text \<open>
  Claim C7, as amended. When a streaming connection with a valid token registers, the handler
  first adds the subscriber to the live set and only then sends the handshake event (event
  \<open>ready\<close> with the current server time): the log of what the hub did shows the addition
  first and the two writes of the handshake after it.
\<close>

theorem stream_registers_before_handshake:
  assumes tok: "sanitizeText B token_param 200 = Inr tok"
    and valid: "getSession tok now (sessions w) = (Some s, ss)"
    and writable: "r \<notin> set (broken w)"
  shows "stream B now now' r token_param w =
           (EventStream,
            w\<lparr> sessions := ss,
               sseClients := (if \<lparr> res = r, c_token = tok \<rparr> \<in> set (sseClients w) then sseClients w
                              else sseClients w @ [\<lparr> res = r, c_token = tok \<rparr>]),
               wire := wire w @ [Subscribe r, Write r (EventLine ''ready''),
                                 Write r (DataLine (Ready now'))] \<rparr>)"
  using assms by (simp add: stream_def Let_def sendSse_def)

theorem stream_registers_before_handshake_witness:
  "fst (stream example_builtins 100 101 9 (JStr (utf16 ''t2'')) hub_world) = EventStream \<and>
   sseClients (snd (stream example_builtins 100 101 9 (JStr (utf16 ''t2'')) hub_world))
     = [stale_client, live_client, \<lparr> res = 9, c_token = utf16 ''t2'' \<rparr>]"
proof -
  have tok: "sanitizeText example_builtins (JStr (utf16 ''t2'')) 200 = Inr (utf16 ''t2'')"
    by code_simp
  have valid: "getSession (utf16 ''t2'') 100 (sessions hub_world)
      = (Some (admin_session 500), sessions hub_world)"
    by code_simp
  have writable: "9 \<notin> set (broken hub_world)"
    by (simp add: hub_world_def empty_world_def)
  have fresh: "\<lparr> res = 9, c_token = utf16 ''t2'' \<rparr> \<notin> set (sseClients hub_world)"
    by (simp add: hub_world_def empty_world_def stale_client_def live_client_def)
  show ?thesis
    unfolding stream_registers_before_handshake [OF tok valid writable]
    using fresh by (simp add: hub_world_def empty_world_def)
qed

text \<open>
  Claim C7 as stated fails: for a valid token on a connection that takes the write, the log
  has the addition to the live set before the handshake, not after it.
\<close>

theorem stream_handshake_order_counterexample:
  "wire (snd (stream example_builtins 100 101 9 (JStr (utf16 ''t2'')) hub_world))
     = [Subscribe 9, Write 9 (EventLine ''ready''), Write 9 (DataLine (Ready 101))] \<and>
   wire (snd (stream example_builtins 100 101 9 (JStr (utf16 ''t2'')) hub_world))
     \<noteq> [Write 9 (EventLine ''ready''), Write 9 (DataLine (Ready 101)), Subscribe 9]"
  by code_simp

text \<open>
  Claim C2. A \<open>createOrder\<close> call that answers 201 and an \<open>updateStatus\<close> call that answers
  200 with the order each add exactly one entry to the history of broadcasts, the event
  \<open>order\<close>, and its payload carries the order as a read of the store after the call returns
  it: the row with that id and its items in ascending item id. For \<open>createOrder\<close> on a store
  whose rows only carry ids already handed out, these items are the normalized items of the
  request, as stored, in submission order; for \<open>updateStatus\<close> the row carries the new
  status (the lower-cased text of the request, one of the four allowed values) as stored.
\<close>

theorem successful_mutation_broadcasts_once:
  "(createOrder B now body w = (ReplyCreated c m oid tot, w') \<longrightarrow>
      published w' = published w @ [(''order'', OrderCreated (read_order oid (cur (db w'))))] \<and>
      (\<exists>row its items. read_order oid (cur (db w')) = Some (row, its) \<and> o_id row = oid \<and>
           sorted (map fst its) \<and>
           normalizeItems B (guarded body ''items'') = Inr items \<and>
           (store_ok (cur (db w)) \<longrightarrow>
              its = enumerate (Suc (seq_items (cur (db w)))) (map (stored B) items)))) \<and>
   (updateStatus B now authorization id_param body w = (ReplyOrder c m ord, w') \<longrightarrow>
      published w' = published w @ [(''order'', OrderUpdated ord)] \<and>
      ord = read_order (row_id (stringToNumber B id_param)) (cur (db w')) \<and>
      (\<exists>row its txt. ord = Some (row, its) \<and> o_id row = row_id (stringToNumber B id_param) \<and>
           sanitizeText B (guarded body ''status'') 40 = Inr txt \<and>
           toLowerCase B txt \<in> set ORDER_STATUSES \<and>
           status row = toStoredText B (toLowerCase B txt) \<and>
           sorted (map fst its)))"
proof (intro conjI impI)
  assume created: "createOrder B now body w = (ReplyCreated c m oid tot, w')"
  then obtain cn' tn' nt' items' where parsed: "read_body B body = Inr (cn', tn', nt', items')"
    by (cases "read_body B body") (auto simp: createOrder_threw)
  let ?items = "map (stored B) items'"
  let ?t' = "with_order (toStoredText B cn') (toStoredText B tn') (toStoredText B nt')
               (order_total B items') now ?items (cur (db w))"
  from created have tried: "create_try now (toStoredText B cn') (toStoredText B tn') (toStoredText B nt')
               (order_total B items') ?items w = (Inr oid, w')"
    by (auto simp: createOrder_unfold [OF parsed] split: if_splits prod.splits sum.splits)
  from create_try_success [OF tried]
  have oid: "oid = Suc (seq_orders (cur (db w)))" and d: "cur (db w') = ?t'"
    and pub: "published w' = published w @ [(''order'', OrderCreated (read_order oid ?t'))]"
    by simp_all
  show "published w' = published w @ [(''order'', OrderCreated (read_order oid (cur (db w'))))]"
    using pub d by simp
  have "select_order oid ?t' \<noteq> None"
    unfolding oid by (rule select_order_with_order)
  then obtain row where full: "read_order oid ?t' = Some (row, select_items oid ?t')"
    by (auto simp: read_order_def)
  from read_order_shape [OF full] have shape: "o_id row = oid" "sorted (map fst (select_items oid ?t'))"
    by simp_all
  have norm: "normalizeItems B (guarded body ''items'') = Inr items'"
    using parsed by (rule read_body_items)
  have "select_items oid ?t' = enumerate (Suc (seq_items (cur (db w)))) (map (stored B) items')"
    if ok: "store_ok (cur (db w))"
  proof -
    from read_order_with_order [OF ok, of "toStoredText B cn'" "toStoredText B tn'" "toStoredText B nt'"
                                  "order_total B items'" now ?items] full
    show ?thesis unfolding oid by simp
  qed
  with full shape d norm
  show "\<exists>row its items. read_order oid (cur (db w')) = Some (row, its) \<and> o_id row = oid \<and>
           sorted (map fst its) \<and>
           normalizeItems B (guarded body ''items'') = Inr items \<and>
           (store_ok (cur (db w)) \<longrightarrow>
              its = enumerate (Suc (seq_items (cur (db w)))) (map (stored B) items))"
    by auto
next
  assume "updateStatus B now authorization id_param body w = (ReplyOrder c m ord, w')"
  from updateStatus_order [OF this] obtain tx where
    san: "sanitizeText B (guarded body ''status'') 40 = Inr tx"
    and allowed: "toLowerCase B tx \<in> set ORDER_STATUSES"
    and u: "update_try now (toStoredText B (toLowerCase B tx)) (row_id (stringToNumber B id_param))
           (w\<lparr> sessions := snd (getSession (bearer_token authorization) now (sessions w)) \<rparr>)
         = (Inr (ReplyOrder c m ord), w')"
    by blast
  note r = update_try_order [OF u]
  show "published w' = published w @ [(''order'', OrderUpdated ord)]"
    using r by simp
  show "ord = read_order (row_id (stringToNumber B id_param)) (cur (db w'))"
    using r by blast
  show "\<exists>row its txt. ord = Some (row, its) \<and> o_id row = row_id (stringToNumber B id_param) \<and>
           sanitizeText B (guarded body ''status'') 40 = Inr txt \<and>
           toLowerCase B txt \<in> set ORDER_STATUSES \<and>
           status row = toStoredText B (toLowerCase B txt) \<and>
           sorted (map fst its)"
    using r san allowed by blast
qed

theorem successful_mutation_broadcasts_once_witness:
  "published shop_world
     = [(''order'', OrderCreated (read_order 1 (cur (db shop_world))))] \<and>
   map (name \<circ> snd) (select_items 1 (cur (db shop_world))) = [utf16 ''Pad Thai'', utf16 ''Tea''] \<and>
   published (snd (updateStatus example_builtins 200 (Some (utf16 ''Bearer t2'')) (utf16 ''1'')
                     served_body shop_world))
     = published shop_world
       @ [(''order'', OrderUpdated (read_order 1 (cur (db (snd (updateStatus example_builtins 200
             (Some (utf16 ''Bearer t2'')) (utf16 ''1'') served_body shop_world))))))]"
proof -
  let ?u = "updateStatus example_builtins 200 (Some (utf16 ''Bearer t2'')) (utf16 ''1'') served_body shop_world"
  have r1: "fst (createOrder example_builtins 100 example_body hub_world)
            = ReplyCreated 201 OrderSaved 1 (Fin 135)"
    by code_simp
  then have h1: "createOrder example_builtins 100 example_body hub_world
            = (ReplyCreated 201 OrderSaved 1 (Fin 135), shop_world)"
    by (simp add: prod_eq_iff shop_world_def)
  have ok: "store_ok (cur (db hub_world))"
    by (simp add: store_ok_def hub_world_def empty_world_def)
  have p0: "published hub_world = []" and s0: "seq_items (cur (db hub_world)) = 0"
    by (simp_all add: hub_world_def empty_world_def)
  have r2: "fst ?u = ReplyOrder 200 StatusUpdated (read_order 1 (cur (db (snd ?u))))"
    by code_simp
  then have h2: "?u = (ReplyOrder 200 StatusUpdated (read_order 1 (cur (db (snd ?u)))), snd ?u)"
    by (simp add: prod_eq_iff)
  note inst1 = successful_mutation_broadcasts_once
                 [where B = example_builtins and now = 100 and body = example_body and w = hub_world
                    and c = 201 and m = OrderSaved and oid = 1 and tot = "Fin 135" and w' = shop_world,
                  THEN conjunct1, rule_format, OF h1]
  note inst2 = successful_mutation_broadcasts_once
                 [where B = example_builtins and now = 200 and body = served_body and w = shop_world
                    and c = 200 and m = StatusUpdated and w' = "snd ?u"
                    and authorization = "Some (utf16 ''Bearer t2'')" and id_param = "utf16 ''1''"
                    and ord = "read_order 1 (cur (db (snd ?u)))",
                  THEN conjunct2, rule_format, OF h2]
  from inst1 have a: "published shop_world = [(''order'', OrderCreated (read_order 1 (cur (db shop_world))))]"
    using p0 by simp
  have norm: "normalizeItems example_builtins (guarded example_body ''items'') = Inr example_items"
    using example_parsed by (rule read_body_items)
  from inst1 ok norm obtain row its where "read_order 1 (cur (db shop_world)) = Some (row, its)"
    and "its = enumerate (Suc (seq_items (cur (db hub_world))))
                 (map (stored example_builtins) example_items)"
    by auto
  then have "select_items 1 (cur (db shop_world))
      = enumerate (Suc 0) (map (stored example_builtins) example_items)"
    using s0 by (auto simp: read_order_def)
  moreover have "map name (map (stored example_builtins) example_items)
      = [utf16 ''Pad Thai'', utf16 ''Tea'']"
    by code_simp
  moreover have "map (name \<circ> snd) (enumerate (Suc 0) xs) = map name xs" for xs :: "item list"
    by (simp only: map_map [symmetric] map_snd_enumerate)
  ultimately have b: "map (name \<circ> snd) (select_items 1 (cur (db shop_world)))
      = [utf16 ''Pad Thai'', utf16 ''Tea'']"
    by simp
  from inst2 have c: "published (snd ?u)
      = published shop_world @ [(''order'', OrderUpdated (read_order 1 (cur (db (snd ?u)))))]"
    by simp
  from a b c show ?thesis by simp
qed

end
